theory Spec2Isabelle
  imports Complex_Main "HOL-Library.Word"
begin

section \<open>Data model\<close>

text \<open>
  A Go \<open>map[string]string\<close> is a key-distinct association list; the order of the list
  stands for the (unspecified) order in which \<open>range\<close> visits the entries.  The \<open>nil\<close>
  map is \<open>None\<close>.  An \<open>error\<close> value is its message, \<open>nil\<close> is \<open>None\<close>.  Go's \<open>int\<close> is
  taken at 64 bits; additions on it wrap around.
\<close>

type_synonym gomap = "(string \<times> string) list"

record ScenarioItem =
  Name :: string
  Case :: string
  GlobalEnv :: "gomap option"
  Env :: "gomap option"
  Workdir :: string
  Description :: string
  Script :: string
  Skip :: bool
  Output :: bool
  SecretPhrase :: string
  Weight :: "64 word"
  Log :: string
  Fatal :: bool
  Debug :: string
  Before :: "string list"
  After :: "string list"
  Status :: string
  Result :: "string option"
  Stdout :: string
  Duration :: string
  canShow :: bool
  canRun :: bool

text \<open>
  A \<open>float64\<close> is modelled by its special values and, when finite, by the exact real
  number; rounding to 53 bits is not modelled.
\<close>

datatype float64 = NaN | PosInf | NegInf | Num real

text \<open>
  A subprocess started by \<open>RunBash\<close>: the script text that fills the shell template, the
  \<open>Dir\<close> of the command and its \<open>Env\<close> list of \<open>key=value\<close> entries.
\<close>

record launch =
  lscript :: string
  ldir :: string
  lenv :: "string list"

text \<open>
  One call of \<open>RunBash\<close>: the index of the scenario it was called on and the subprocess
  it started (\<open>None\<close> when the script was empty and nothing was started).
\<close>

datatype event = Invoke nat "launch option"

text \<open>
  The struct \<open>suitConfig\<close>.  Its field \<open>Name\<close> is called \<open>suitName\<close> here.  Two more fields
  record the interaction with the outside: \<open>trace\<close> is the sequence of \<open>RunBash\<close> calls
  made so far, \<open>ticks\<close> the number of clock readings made so far.
\<close>

record suitConfig =
  suitName :: string
  Cases :: "ScenarioItem list"
  startTime :: int
  endTime :: int
  all :: int
  successfull :: int
  failed :: int
  score :: float64
  duration :: string
  trace :: "event list"
  ticks :: nat

text \<open>
  Everything the program reads from outside: the package variables set from the command
  line (\<open>workdir\<close>, \<open>verbosity\<close>), the YAML decoder applied to the embedded suite
  (\<open>None\<close> when \<open>yaml.Unmarshal\<close> returns an error), \<open>os.Getwd\<close> (the process does not
  change directory, so every call returns the same string; empty when it fails),
  \<open>os.Environ\<close>, the outcome of the \<open>n\<close>-th \<open>RunBash\<close> call's subprocess (combined output
  and error), \<open>strings.TrimSpace\<close>, the \<open>n\<close>-th reading of the clock in nanoseconds and
  \<open>Duration.String\<close>.
\<close>

record host =
  workdir :: string
  verbosity :: int
  unmarshal :: "string \<Rightarrow> suitConfig option"
  getwd :: string
  environ :: "string list"
  combinedOutput :: "nat \<Rightarrow> launch \<Rightarrow> string \<times> string option"
  trimSpace :: "string \<Rightarrow> string"
  now :: "nat \<Rightarrow> int"
  durationString :: "int \<Rightarrow> string"

datatype error = ConfigFatal | IndexOutOfRange int

section \<open>Scenario methods\<close>

definition IsSuccessful :: "ScenarioItem \<Rightarrow> bool" where
  "IsSuccessful s = (Status s = ''success'')"

definition IsFailed :: "ScenarioItem \<Rightarrow> bool" where
  "IsFailed s = (Status s = ''failed'')"

definition CanShow :: "ScenarioItem \<Rightarrow> bool" where
  "CanShow s = canShow s"

text \<open>The entries \<open>RunBash\<close> appends to the command's environment, in iteration order.\<close>

definition envEntries :: "gomap option \<Rightarrow> string list" where
  "envEntries m = (case m of None \<Rightarrow> [] | Some kvs \<Rightarrow> map (\<lambda>(key, val). key @ ''='' @ val) kvs)"

text \<open>
  \<open>RunBash\<close> on a scenario, as the \<open>n\<close>-th call: the updated scenario and the subprocess
  started.  The temporary directory and file are assumed to be created.
\<close>

definition RunBash :: "host \<Rightarrow> nat \<Rightarrow> ScenarioItem \<Rightarrow> ScenarioItem \<times> launch option" where
  "RunBash h n s =
     (if Script s \<noteq> '''' then
        (let script = \<lparr>lscript = Script s, ldir = workdir h,
                        lenv = environ h @ envEntries (GlobalEnv s)\<rparr>;
             (stdout, err) = combinedOutput h n script
         in (s\<lparr>Stdout := trimSpace h stdout, Result := err,
                Status := (if err = None then ''success'' else ''failed'')\<rparr>, Some script))
      else (s, None))"

section \<open>Suite methods\<close>

fun getScenarioIdsFrom :: "nat \<Rightarrow> ScenarioItem list \<Rightarrow> nat list" where
  "getScenarioIdsFrom i [] = []"
| "getScenarioIdsFrom i (s # rest) =
     (if Skip s then getScenarioIdsFrom (Suc i) rest
      else if canShow s \<or> canRun s then i # getScenarioIdsFrom (Suc i) rest
      else getScenarioIdsFrom (Suc i) rest)"

definition getScenarioIds :: "suitConfig \<Rightarrow> nat list" where
  "getScenarioIds c = getScenarioIdsFrom 0 (Cases c)"

definition getScenarioCount :: "suitConfig \<Rightarrow> int" where
  "getScenarioCount c =
     fold (\<lambda>i result. if CanShow (Cases c ! i) then result + 1 else result) (getScenarioIds c) 0"

fun getIdByNameFrom :: "int \<Rightarrow> ScenarioItem list \<Rightarrow> string \<Rightarrow> int" where
  "getIdByNameFrom i [] name = - 1"
| "getIdByNameFrom i (item # rest) name =
     (if Name item = name then i else getIdByNameFrom (i + 1) rest name)"

definition getIdByName :: "suitConfig \<Rightarrow> string \<Rightarrow> int" where
  "getIdByName c name = getIdByNameFrom 0 (Cases c) name"

text \<open>\<open>c.Cases[k].RunBash()\<close> for an integer index: out of range is a panic.\<close>

definition runAt :: "host \<Rightarrow> int \<Rightarrow> suitConfig \<Rightarrow> error + suitConfig" where
  "runAt h k c =
     (if 0 \<le> k \<and> k < int (length (Cases c)) then
        (let (s, l) = RunBash h (length (trace c)) (Cases c ! nat k)
         in Inr (c\<lparr>Cases := (Cases c)[nat k := s], trace := trace c @ [Invoke (nat k) l]\<rparr>))
      else Inl (IndexOutOfRange k))"

fun runHooks :: "host \<Rightarrow> string list \<Rightarrow> suitConfig \<Rightarrow> error + suitConfig" where
  "runHooks h [] c = Inr c"
| "runHooks h (name # names) c =
     (case runAt h (getIdByName c name) c of
        Inl e \<Rightarrow> Inl e
      | Inr c1 \<Rightarrow> runHooks h names c1)"

definition truncateMs :: "int \<Rightarrow> int" where
  "truncateMs d = (if 0 \<le> d then (d div 1000000) * 1000000 else - (((- d) div 1000000) * 1000000))"

definition durationOf :: "host \<Rightarrow> int \<Rightarrow> int \<Rightarrow> string" where
  "durationOf h start finish = durationString h (truncateMs (finish - start))"

definition exec :: "host \<Rightarrow> nat \<Rightarrow> suitConfig \<Rightarrow> error + suitConfig" where
  "exec h item c =
     (if item < length (Cases c) then
        (if Script (Cases c ! item) \<noteq> '''' then
           (let taskStartTime = now h (ticks c);
                c0 = c\<lparr>ticks := Suc (ticks c)\<rparr>
            in case runHooks h (Before (Cases c0 ! item)) c0 of
                 Inl e \<Rightarrow> Inl e
               | Inr c1 \<Rightarrow>
                  (case runAt h (int item) c1 of
                     Inl e \<Rightarrow> Inl e
                   | Inr c2 \<Rightarrow>
                      (case runHooks h (After (Cases c2 ! item)) c2 of
                         Inl e \<Rightarrow> Inl e
                       | Inr c3 \<Rightarrow>
                          Inr (c3\<lparr>Cases := (Cases c3)[item := (Cases c3 ! item)
                                      \<lparr>Duration := durationOf h taskStartTime (now h (ticks c3))\<rparr>],
                                   ticks := Suc (ticks c3)\<rparr>))))
         else Inr c)
      else Inl (IndexOutOfRange (int item)))"

section \<open>Resolution\<close>

fun getConfLoop :: "string \<Rightarrow> gomap option \<Rightarrow> string \<Rightarrow> ScenarioItem list \<Rightarrow> ScenarioItem list" where
  "getConfLoop cwd envs wdir [] = []"
| "getConfLoop cwd envs wdir (s # rest) =
     (let envs1 = (if GlobalEnv s \<noteq> None then GlobalEnv s else envs);
          s1 = (if GlobalEnv s \<noteq> None then s else s\<lparr>GlobalEnv := envs\<rparr>);
          wdir1 = (if Workdir s1 \<noteq> '''' then Workdir s1
                   else if wdir = '''' then cwd else wdir);
          s2 = (if Workdir s1 \<noteq> '''' then s1 else s1\<lparr>Workdir := wdir\<rparr>);
          s3 = (if Case s2 \<noteq> '''' then s2\<lparr>canShow := True, canRun := True\<rparr> else s2);
          s4 = (if Name s3 = '''' then s3\<lparr>canRun := True\<rparr> else s3);
          s5 = (if CanShow s4 then (if Weight s4 = 0 then s4\<lparr>Weight := 1\<rparr> else s4) else s4)
      in s5 # getConfLoop cwd envs1 wdir1 rest)"

definition getConf :: "host \<Rightarrow> string \<Rightarrow> error + suitConfig" where
  "getConf h config =
     (case unmarshal h config of
        None \<Rightarrow> Inl ConfigFatal
      | Some t \<Rightarrow>
          Inr (t\<lparr>Cases := getConfLoop (getwd h) None
                             (if workdir h \<noteq> '''' then workdir h else getwd h) (Cases t)\<rparr>))"

section \<open>Scoring and summary\<close>

record tally =
  sum_acc :: "64 word"
  max_acc :: "64 word"
  failed_acc :: int
  all_acc :: int

definition signOffStep :: "suitConfig \<Rightarrow> nat \<Rightarrow> tally \<Rightarrow> tally" where
  "signOffStep c i t =
     (let item = Cases c ! i in
      if CanShow item then
        (let t1 = t\<lparr>all_acc := all_acc t + 1, max_acc := max_acc t + Weight item\<rparr>
         in if IsSuccessful item then t1\<lparr>sum_acc := sum_acc t1 + Weight item\<rparr>
            else t1\<lparr>failed_acc := failed_acc t1 + 1\<rparr>)
      else t)"

definition signOffTally :: "suitConfig \<Rightarrow> tally" where
  "signOffTally c =
     fold (signOffStep c) (getScenarioIds c) \<lparr>sum_acc = 0, max_acc = 0, failed_acc = 0, all_acc = 0\<rparr>"

text \<open>Division of two finite \<open>float64\<close> values given as reals.\<close>

definition float64_div :: "real \<Rightarrow> real \<Rightarrow> float64" where
  "float64_div a b =
     (if b = 0 then (if a = 0 then NaN else if 0 < a then PosInf else NegInf)
      else Num (a / b))"

definition signOff :: "host \<Rightarrow> suitConfig \<Rightarrow> suitConfig" where
  "signOff h c =
     (let end = now h (ticks c);
          t = signOffTally c
      in c\<lparr>endTime := end,
            successfull := all_acc t - failed_acc t,
            failed := failed_acc t,
            all := all_acc t,
            score := float64_div (100 * real_of_int (sint (sum_acc t))) (real_of_int (sint (max_acc t))),
            duration := durationOf h (startTime c) end,
            ticks := Suc (ticks c)\<rparr>)"

text \<open>
  The summary line, by its arguments: whether it is printed in red (some test failed),
  the counts, the score and the elapsed time.  \<open>None\<close>: nothing is printed.
\<close>

datatype summary = Summary bool int int int float64 string

definition printSummary :: "suitConfig \<Rightarrow> summary option" where
  "printSummary c =
     (if all c > 0 then
        (if failed c > 0 then Some (Summary True (successfull c) (all c) (failed c) (score c) (duration c))
         else Some (Summary False (successfull c) (all c) (failed c) (score c) (duration c)))
      else None)"

section \<open>The run\<close>

text \<open>
  The lines written to the log are not part of the model, except the summary line.  Of
  \<open>printHeader\<close> this leaves the reading of the start time.
\<close>

definition printHeader :: "host \<Rightarrow> suitConfig \<Rightarrow> suitConfig" where
  "printHeader h c = c\<lparr>startTime := now h (ticks c), ticks := Suc (ticks c)\<rparr>"

text \<open>
  \<open>printTestStatus\<close> writes to the log only; what is kept of it is whether it panics:
  with enough verbosity it indexes \<open>Cases\<close> by the looked-up id of every hook name.
\<close>

fun derefHooks :: "suitConfig \<Rightarrow> string list \<Rightarrow> error option" where
  "derefHooks c [] = None"
| "derefHooks c (name # names) =
     (let k = getIdByName c name in
      if 0 \<le> k \<and> k < int (length (Cases c)) then derefHooks c names
      else Some (IndexOutOfRange k))"

definition printTestStatus :: "host \<Rightarrow> suitConfig \<Rightarrow> nat \<Rightarrow> error option" where
  "printTestStatus h c i =
     (if i < length (Cases c) then
        (let testCase = Cases c ! i in
         if i \<in> set (getScenarioIds c) \<and> CanShow testCase
            \<and> ((verbosity h > 1 \<and> IsFailed testCase) \<or> verbosity h > 2)
         then (case derefHooks c (Before testCase) of
                 Some e \<Rightarrow> Some e
               | None \<Rightarrow> derefHooks c (After testCase))
         else None)
      else Some (IndexOutOfRange (int i)))"

text \<open>
  The loop of \<open>main\<close> over a list of indices: \<open>exec\<close> and then, for a scenario that
  can be shown, its status line.  A panic ends the run.
\<close>

fun runScenarios :: "host \<Rightarrow> nat list \<Rightarrow> suitConfig \<Rightarrow> error + suitConfig" where
  "runScenarios h [] c = Inr c"
| "runScenarios h (i # ids) c =
     (case exec h i c of
        Inl e \<Rightarrow> Inl e
      | Inr c1 \<Rightarrow>
          (if CanShow (Cases c1 ! i) then
             (case printTestStatus h c1 i of
                Some e \<Rightarrow> Inl e
              | None \<Rightarrow> runScenarios h ids c1)
           else runScenarios h ids c1))"

text \<open>
  The indices the loop visits, in order: those of \<open>getScenarioIds\<close> when
  \<open>getScenarioCount\<close> is positive, none otherwise.  \<open>main\<close> takes the two package
  variables as the command line has set them.
\<close>

definition runnerIds :: "suitConfig \<Rightarrow> nat list" where
  "runnerIds c = (if getScenarioCount c > 0 then getScenarioIds c else [])"

definition runner :: "host \<Rightarrow> suitConfig \<Rightarrow> error + suitConfig" where
  "runner h c = runScenarios h (runnerIds c) c"

definition main :: "host \<Rightarrow> string \<Rightarrow> error + suitConfig \<times> summary option" where
  "main h config =
     (case getConf h config of
        Inl e \<Rightarrow> Inl e
      | Inr c \<Rightarrow>
          (case runner h (printHeader h c) of
             Inl e \<Rightarrow> Inl e
           | Inr c1 \<Rightarrow> (let c2 = signOff h c1 in Inr (c2, printSummary c2))))"

section \<open>Notions used in the statements\<close>

text \<open>
  The fields of a scenario that come from the suite definition and from resolution: the
  scenario with its four runtime fields cleared.  Two scenarios with the same
  \<open>staticPart\<close> differ in runtime fields only.
\<close>

definition staticPart :: "ScenarioItem \<Rightarrow> ScenarioItem" where
  "staticPart s = s\<lparr>Status := [], Result := None, Stdout := [], Duration := []\<rparr>"

text \<open>The subprocess a call of \<open>RunBash\<close> on a scenario starts, and the call as an event.\<close>

definition launchOf :: "host \<Rightarrow> ScenarioItem \<Rightarrow> launch option" where
  "launchOf h s = (if Script s = '''' then None
     else Some \<lparr>lscript = Script s, ldir = workdir h, lenv = environ h @ envEntries (GlobalEnv s)\<rparr>)"

definition invokeOf :: "host \<Rightarrow> ScenarioItem list \<Rightarrow> nat \<Rightarrow> event" where
  "invokeOf h cs j = Invoke j (launchOf h (cs ! j))"

text \<open>The indices a list of hook names is looked up to.\<close>

definition hookIds :: "suitConfig \<Rightarrow> string list \<Rightarrow> nat list" where
  "hookIds c names = map (\<lambda>name. nat (getIdByName c name)) names"

text \<open>
  The words of the specification: a scenario is displayable when its label is set; it is
  eligible when it is not skipped and is displayable or has no name.
\<close>

definition displayable :: "ScenarioItem \<Rightarrow> bool" where
  "displayable s = (Case s \<noteq> '''')"

definition eligible :: "ScenarioItem \<Rightarrow> bool" where
  "eligible s = (\<not> Skip s \<and> (displayable s \<or> Name s = ''''))"

text \<open>The test of \<open>getScenarioIds\<close> on one scenario, and the scenarios \<open>signOff\<close> counts.\<close>

definition selected :: "ScenarioItem \<Rightarrow> bool" where
  "selected s = (\<not> Skip s \<and> (canShow s \<or> canRun s))"

definition scored :: "ScenarioItem list \<Rightarrow> ScenarioItem list" where
  "scored cs = filter (\<lambda>s. \<not> Skip s \<and> CanShow s) cs"

text \<open>The body of the loop of \<open>signOff\<close> on the scenario itself.\<close>

definition signOffItem :: "ScenarioItem \<Rightarrow> tally \<Rightarrow> tally" where
  "signOffItem item t =
     (if CanShow item then
        (let t1 = t\<lparr>all_acc := all_acc t + 1, max_acc := max_acc t + Weight item\<rparr>
         in if IsSuccessful item then t1\<lparr>sum_acc := sum_acc t1 + Weight item\<rparr>
            else t1\<lparr>failed_acc := failed_acc t1 + 1\<rparr>)
      else t)"

text \<open>
  Inheritance in the words of the specification: the scenario's own value if it declares
  one, else that of the most recent earlier scenario that declares one, else the start
  value.  \<open>nearestDeclaring\<close> searches the scenarios \<open>i, i - 1, \<dots>, 0\<close> in this order.
\<close>

definition nearestDeclaring :: "(ScenarioItem \<Rightarrow> bool) \<Rightarrow> ScenarioItem list \<Rightarrow> nat \<Rightarrow> ScenarioItem option" where
  "nearestDeclaring declares cs i = find declares (rev (take (Suc i) cs))"

definition inheritedEnv :: "ScenarioItem list \<Rightarrow> nat \<Rightarrow> gomap option" where
  "inheritedEnv cs i =
     (case nearestDeclaring (\<lambda>s. GlobalEnv s \<noteq> None) cs i of Some s \<Rightarrow> GlobalEnv s | None \<Rightarrow> None)"

definition inheritedWorkdir :: "string \<Rightarrow> ScenarioItem list \<Rightarrow> nat \<Rightarrow> string" where
  "inheritedWorkdir start cs i =
     (case nearestDeclaring (\<lambda>s. Workdir s \<noteq> '''') cs i of Some s \<Rightarrow> Workdir s | None \<Rightarrow> start)"

definition startDir :: "host \<Rightarrow> string" where
  "startDir h = (if workdir h \<noteq> '''' then workdir h else getwd h)"

text \<open>
  How the operating system reads an \<open>Env\<close> list (package \<open>os/exec\<close>): an entry is split at
  its first \<open>=\<close>, and of several entries with one key the last one counts.
\<close>

definition envKey :: "string \<Rightarrow> string" where
  "envKey e = takeWhile (\<lambda>ch. ch \<noteq> CHR ''='') e"

definition envValue :: "string \<Rightarrow> string" where
  "envValue e = drop 1 (dropWhile (\<lambda>ch. ch \<noteq> CHR ''='') e)"

fun lookupEnv :: "string list \<Rightarrow> string \<Rightarrow> string option" where
  "lookupEnv [] k = None"
| "lookupEnv (e # es) k =
     (case lookupEnv es k of
        Some v \<Rightarrow> Some v
      | None \<Rightarrow> if envKey e = k then Some (envValue e) else None)"

text \<open>The resolved environment mapping of a scenario as a list of pairs; \<open>nil\<close> is empty.\<close>

definition scenarioEnv :: "ScenarioItem \<Rightarrow> gomap" where
  "scenarioEnv s = (case GlobalEnv s of None \<Rightarrow> [] | Some kvs \<Rightarrow> kvs)"

text \<open>Projections of a whole run, for statements about concrete suites.\<close>

definition resolvedCases :: "host \<Rightarrow> string \<Rightarrow> ScenarioItem list" where
  "resolvedCases h config = (case getConf h config of Inl e \<Rightarrow> [] | Inr c \<Rightarrow> Cases c)"

definition executedIds :: "host \<Rightarrow> string \<Rightarrow> nat list" where
  "executedIds h config = (case getConf h config of Inl e \<Rightarrow> [] | Inr c \<Rightarrow> runnerIds (printHeader h c))"

definition mainTrace :: "host \<Rightarrow> string \<Rightarrow> event list option" where
  "mainTrace h config = (case main h config of Inl e \<Rightarrow> None | Inr (c, out) \<Rightarrow> Some (trace c))"

definition mainReport :: "host \<Rightarrow> string \<Rightarrow> (int \<times> int \<times> int \<times> float64 \<times> summary option) option" where
  "mainReport h config =
     (case main h config of
        Inl e \<Rightarrow> None
      | Inr (c, out) \<Rightarrow> Some (successfull c, all c, failed c, score c, out))"

section \<open>Example suites\<close>

text \<open>The zero values of the two structs.\<close>

definition zeroItem :: ScenarioItem where
  "zeroItem = \<lparr>Name = [], Case = [], GlobalEnv = None, Env = None, Workdir = [], Description = [],
     Script = [], Skip = False, Output = False, SecretPhrase = [], Weight = 0, Log = [],
     Fatal = False, Debug = [], Before = [], After = [], Status = [], Result = None, Stdout = [],
     Duration = [], canShow = False, canRun = False\<rparr>"

definition zeroSuite :: suitConfig where
  "zeroSuite = \<lparr>suitName = [], Cases = [], startTime = 0, endTime = 0, all = 0, successfull = 0,
     failed = 0, score = Num 0, duration = [], trace = [], ticks = 0\<rparr>"

definition stateOf :: "ScenarioItem list \<Rightarrow> suitConfig" where
  "stateOf cs = zeroSuite\<lparr>Cases := cs\<rparr>"

text \<open>
  A host for the examples: the given working-directory flag, a decoder that yields the
  given scenarios, a shell in which the script \<open>exit 1\<close> fails and every other script
  succeeds, a clock that advances 5 ms per reading.
\<close>

definition exampleHost :: "string \<Rightarrow> ScenarioItem list \<Rightarrow> host" where
  "exampleHost wd cs =
     \<lparr>workdir = wd, verbosity = 0,
      unmarshal = (\<lambda>config. Some (zeroSuite\<lparr>suitName := ''example'', Cases := cs\<rparr>)),
      getwd = ''/home/check'',
      environ = [''PATH=/bin'', ''LANG=C''],
      combinedOutput = (\<lambda>n l. if lscript l = ''exit 1'' then ([], Some ''exit status 1'') else ([], None)),
      trimSpace = (\<lambda>out. out),
      now = (\<lambda>n. int n * 5000000),
      durationString = (\<lambda>d. if d = 0 then ''0s'' else ''some ms'')\<rparr>"

definition suiteB :: "ScenarioItem list" where
  "suiteB = [zeroItem\<lparr>Case := ''first'', Script := ''exit 0'', Weight := 1\<rparr>,
             zeroItem\<lparr>Case := ''second'', Script := ''exit 1'', Weight := 3\<rparr>]"


definition suiteInert :: "ScenarioItem list" where
  "suiteInert = [zeroItem\<lparr>Name := ''setup'', Script := ''mkdir d''\<rparr>,
                 zeroItem\<lparr>Name := ''inert'', Case := ''inert'', Before := [''setup''], After := [''setup'']\<rparr>,
                 zeroItem\<lparr>Case := ''check'', Script := ''exit 0'', Before := [''inert'']\<rparr>]"

definition suiteMissing :: "ScenarioItem list" where
  "suiteMissing = [zeroItem\<lparr>Case := ''check'', Script := ''exit 0'', After := [''cleanup'']\<rparr>]"

text \<open>Five scenarios, of which the second declares both settings and the fourth an empty mapping.\<close>

definition suiteInherit :: "ScenarioItem list" where
  "suiteInherit = [zeroItem\<lparr>Case := ''a'', Script := ''exit 0''\<rparr>,
                   zeroItem\<lparr>Case := ''b'', Script := ''exit 0'', GlobalEnv := Some [(''MODE'', ''fast'')], Workdir := ''/srv''\<rparr>,
                   zeroItem\<lparr>Case := ''c'', Script := ''exit 0''\<rparr>,
                   zeroItem\<lparr>Case := ''d'', Script := ''exit 0'', GlobalEnv := Some []\<rparr>,
                   zeroItem\<lparr>Case := ''e'', Script := ''exit 0''\<rparr>]"

definition itemEnv :: ScenarioItem where
  "itemEnv = zeroItem\<lparr>Case := ''env'', Script := ''exit 0'',
                      GlobalEnv := Some [(''LANG'', ''de_DE''), (''MODE'', ''fast'')]\<rparr>"

definition suiteMixed :: "ScenarioItem list" where
  "suiteMixed = [zeroItem\<lparr>Name := ''setup'', Script := ''mkdir d''\<rparr>,
                 zeroItem\<lparr>Script := ''exit 0''\<rparr>,
                 zeroItem\<lparr>Case := ''skipped'', Script := ''exit 0'', Skip := True\<rparr>,
                 zeroItem\<lparr>Name := ''check'', Case := ''check'', Script := ''exit 0'', Before := [''setup'']\<rparr>]"

definition suiteAnonymous :: "ScenarioItem list" where
  "suiteAnonymous = [zeroItem\<lparr>Script := ''exit 0''\<rparr>]"

text \<open>The sum of the weights of a list of scenarios, in Go's \<open>int\<close> and as an integer.\<close>

definition weightSum :: "ScenarioItem list \<Rightarrow> 64 word" where
  "weightSum xs = sum_list (map Weight xs)"

definition exactWeightSum :: "ScenarioItem list \<Rightarrow> int" where
  "exactWeightSum xs = sum_list (map (\<lambda>s. sint (Weight s)) xs)"

definition suiteZeroWeight :: "ScenarioItem list" where
  "suiteZeroWeight = [zeroItem\<lparr>Case := ''unweighted'', Script := ''exit 0''\<rparr>,
                      zeroItem\<lparr>Name := ''helper'', Script := ''exit 0''\<rparr>]"

definition suiteWorkdir :: "ScenarioItem list" where
  "suiteWorkdir = [zeroItem\<lparr>Case := ''where'', Script := ''pwd'', Workdir := ''/srv''\<rparr>]"

text \<open>A displayable scenario that has succeeded, and one without a script that was never run.\<close>

definition doneItem :: ScenarioItem where
  "doneItem = zeroItem\<lparr>Case := ''done'', Script := ''exit 0'', Weight := 1, Status := ''success'',
                       canShow := True, canRun := True\<rparr>"

definition inertItem :: ScenarioItem where
  "inertItem = zeroItem\<lparr>Name := ''inert'', Case := ''inert'', Weight := 2, canShow := True, canRun := True\<rparr>"

text \<open>
  The calls of \<open>RunBash\<close> that \<open>exec\<close> makes on a scenario, by index and as events: none
  for a scenario without a script, else its before hooks, the scenario, its after hooks.
\<close>

definition execCalls :: "suitConfig \<Rightarrow> nat \<Rightarrow> nat list" where
  "execCalls c i =
     (if Script (Cases c ! i) = '''' then []
      else hookIds c (Before (Cases c ! i)) @ [i] @ hookIds c (After (Cases c ! i)))"

definition execEvents :: "host \<Rightarrow> suitConfig \<Rightarrow> nat \<Rightarrow> event list" where
  "execEvents h c i = map (invokeOf h (Cases c)) (execCalls c i)"

text \<open>Every before and after name of every scenario is the name of some scenario.\<close>

definition hooksResolve :: "ScenarioItem list \<Rightarrow> bool" where
  "hooksResolve cs =
     list_all (list_all (\<lambda>name. name \<in> set (map Name cs))) (map (\<lambda>s. Before s @ After s) cs)"

section \<open>Auxiliary lemmas\<close>

lemma getIdByNameFrom_unresolved:
  "name \<notin> Name ` set cs \<Longrightarrow> getIdByNameFrom i cs name = - 1"
  by (induction cs arbitrary: i) auto

lemma getIdByNameFrom_range:
  "name \<in> Name ` set cs \<Longrightarrow> i \<le> getIdByNameFrom i cs name \<and> getIdByNameFrom i cs name < i + int (length cs)"
proof (induction cs arbitrary: i)
  case Nil then show ?case by simp
next
  case (Cons s cs)
  show ?case
  proof (cases "Name s = name")
    case True then show ?thesis by simp
  next
    case False
    with Cons.prems have "name \<in> Name ` set cs" by auto
    from Cons.IH [OF this, of "i + 1"] False show ?thesis by simp
  qed
qed

lemma getIdByNameFrom_names:
  "map Name cs = map Name cs' \<Longrightarrow> getIdByNameFrom i cs name = getIdByNameFrom i cs' name"
proof (induction cs arbitrary: cs' i)
  case Nil then show ?case by simp
next
  case (Cons s cs)
  then obtain s' rest where "cs' = s' # rest" by (cases cs') auto
  with Cons show ?case by auto
qed

lemma static_names: "map staticPart cs = map staticPart cs' \<Longrightarrow> map Name cs = map Name cs'"
proof -
  assume a: "map staticPart cs = map staticPart cs'"
  have "map Name cs = map Name (map staticPart cs)" by (simp add: staticPart_def)
  also have "\<dots> = map Name (map staticPart cs')" using a by simp
  also have "\<dots> = map Name cs'" by (simp add: staticPart_def)
  finally show ?thesis .
qed

lemma static_getIdByName:
  "map staticPart (Cases c) = map staticPart (Cases c') \<Longrightarrow> getIdByName c name = getIdByName c' name"
  unfolding getIdByName_def by (rule getIdByNameFrom_names) (rule static_names)

lemma launchOf_static: "launchOf h (staticPart s) = launchOf h s"
  by (simp add: launchOf_def staticPart_def)

lemma static_nth:
  assumes "map staticPart cs = map staticPart cs'" "j < length cs"
  shows "staticPart (cs ! j) = staticPart (cs' ! j)"
proof -
  from assms have l: "j < length cs'" by (metis length_map)
  have "staticPart (cs ! j) = map staticPart cs ! j" using assms(2) by simp
  also have "\<dots> = map staticPart cs' ! j" using assms(1) by simp
  also have "\<dots> = staticPart (cs' ! j)" using l by simp
  finally show ?thesis .
qed

lemma static_invokeOf:
  assumes "map staticPart cs = map staticPart cs'" "j < length cs"
  shows "invokeOf h cs j = invokeOf h cs' j"
  using static_nth [OF assms] launchOf_static [of h "cs ! j"] launchOf_static [of h "cs' ! j"]
  by (simp add: invokeOf_def)

lemma RunBash_empty: "Script s = '''' \<Longrightarrow> RunBash h n s = (s, None)"
  by (simp add: RunBash_def)

lemma RunBash_static: "staticPart (fst (RunBash h n s)) = staticPart s"
  by (simp add: RunBash_def staticPart_def Let_def split: prod.splits)

lemma RunBash_launch: "snd (RunBash h n s) = launchOf h s"
  by (simp add: RunBash_def launchOf_def Let_def split: prod.splits)

lemma runAt_ok:
  assumes "0 \<le> k" "k < int (length (Cases c))"
  shows "runAt h k c = Inr (c\<lparr>Cases := (Cases c)[nat k := fst (RunBash h (length (trace c)) (Cases c ! nat k))],
                               trace := trace c @ [invokeOf h (Cases c) (nat k)]\<rparr>)"
  using assms by (simp add: runAt_def invokeOf_def case_prod_beta RunBash_launch)

lemma runAt_Inr:
  assumes "runAt h k c = Inr c'"
  shows "0 \<le> k \<and> k < int (length (Cases c)) \<and>
         c' = c\<lparr>Cases := (Cases c)[nat k := fst (RunBash h (length (trace c)) (Cases c ! nat k))],
                 trace := trace c @ [invokeOf h (Cases c) (nat k)]\<rparr>"
proof (cases "0 \<le> k \<and> k < int (length (Cases c))")
  case True
  with runAt_ok [of k c h] assms show ?thesis by simp
next
  case False
  with assms show ?thesis by (simp add: runAt_def)
qed

lemma runAt_static:
  assumes "runAt h k c = Inr c'"
  shows "map staticPart (Cases c') = map staticPart (Cases c)"
proof -
  from runAt_Inr [OF assms] have k: "0 \<le> k" "k < int (length (Cases c))"
    and c': "Cases c' = (Cases c)[nat k := fst (RunBash h (length (trace c)) (Cases c ! nat k))]"
    by simp_all
  from k have "nat k < length (Cases c)" by simp
  then show ?thesis
    by (simp add: c' map_update RunBash_static list_update_same_conv)
qed

lemma runAt_frame:
  assumes "runAt h k c = Inr c'"
  shows "length (Cases c') = length (Cases c) \<and> ticks c' = ticks c
         \<and> trace c' = trace c @ [invokeOf h (Cases c) (nat k)]"
  using runAt_Inr [OF assms] by simp

lemma runAt_keeps_empty:
  assumes "runAt h k c = Inr c'" "Script (Cases c ! i) = ''''" "i < length (Cases c)"
  shows "Cases c' ! i = Cases c ! i"
proof -
  from runAt_Inr [OF assms(1)] have k: "0 \<le> k" "k < int (length (Cases c))"
    and c': "Cases c' = (Cases c)[nat k := fst (RunBash h (length (trace c)) (Cases c ! nat k))]"
    by simp_all
  show ?thesis
  proof (cases "nat k = i")
    case True
    with assms(2,3) show ?thesis by (simp add: c' RunBash_empty)
  next
    case False
    then show ?thesis by (simp add: c')
  qed
qed

lemma static_name_set:
  "map staticPart cs = map staticPart cs' \<Longrightarrow> Name ` set cs = Name ` set cs'"
  using static_names [of cs cs'] by (metis list.set_map)

lemma static_hookIds:
  "map staticPart (Cases c) = map staticPart (Cases c') \<Longrightarrow> hookIds c names = hookIds c' names"
  by (simp add: hookIds_def static_getIdByName [of c c'])

lemma getIdByName_resolved:
  "name \<in> Name ` set (Cases c) \<Longrightarrow> 0 \<le> getIdByName c name \<and> getIdByName c name < int (length (Cases c))"
  using getIdByNameFrom_range [of name "Cases c" 0] by (simp add: getIdByName_def)

lemma getIdByName_unresolved:
  "name \<notin> Name ` set (Cases c) \<Longrightarrow> getIdByName c name = - 1"
  by (simp add: getIdByName_def getIdByNameFrom_unresolved)

lemma runAt_range: "runAt h k c = Inr c' \<Longrightarrow> 0 \<le> k \<and> nat k < length (Cases c)"
  by (auto simp: runAt_def split: if_splits)

lemma runHooks_frame:
  "runHooks h names c = Inr c' \<Longrightarrow>
     map staticPart (Cases c') = map staticPart (Cases c) \<and> length (Cases c') = length (Cases c)
     \<and> ticks c' = ticks c
     \<and> trace c' = trace c @ map (invokeOf h (Cases c)) (hookIds c names)"
proof (induction names arbitrary: c)
  case Nil
  then show ?case by (simp add: hookIds_def)
next
  case (Cons name names)
  from Cons.prems obtain c1 where r1: "runAt h (getIdByName c name) c = Inr c1"
    and r2: "runHooks h names c1 = Inr c'"
    by (auto split: sum.splits)
  note st1 = runAt_static [OF r1]
  note fr1 = runAt_frame [OF r1]
  from runAt_range [OF r1] have rng: "nat (getIdByName c name) < length (Cases c)" by simp
  from Cons.IH [OF r2] have st2: "map staticPart (Cases c') = map staticPart (Cases c1)"
    and len2: "length (Cases c') = length (Cases c1)" and tk2: "ticks c' = ticks c1"
    and tr2: "trace c' = trace c1 @ map (invokeOf h (Cases c1)) (hookIds c1 names)"
    by simp_all
  have ids: "hookIds c1 names = hookIds c names" by (rule static_hookIds [OF st1])
  have rngs: "\<forall>j \<in> set (hookIds c1 names). j < length (Cases c1)"
  proof -
    have "\<And>c. runHooks h names c = Inr c' \<Longrightarrow> \<forall>j \<in> set (hookIds c names). j < length (Cases c)"
    proof (induction names)
      case Nil then show ?case by (simp add: hookIds_def)
    next
      case (Cons n ns)
      from Cons.prems obtain d where d1: "runAt h (getIdByName c n) c = Inr d"
        and d2: "runHooks h ns d = Inr c'" by (auto split: sum.splits)
      from runAt_range [OF d1] have "nat (getIdByName c n) < length (Cases c)" by simp
      moreover from Cons.IH [OF d2] static_hookIds [OF runAt_static [OF d1]] runAt_frame [OF d1]
      have "\<forall>j \<in> set (hookIds c ns). j < length (Cases c)" by simp
      ultimately show ?case by (simp add: hookIds_def)
    qed
    from this [OF r2] show ?thesis .
  qed
  have "map (invokeOf h (Cases c1)) (hookIds c1 names) = map (invokeOf h (Cases c)) (hookIds c1 names)"
    using rngs static_invokeOf [OF st1] by simp
  with tr2 fr1 ids st1 st2 len2 tk2 show ?case by (simp add: hookIds_def)
qed

lemma runHooks_resolved:
  "\<forall>name \<in> set names. name \<in> Name ` set (Cases c) \<Longrightarrow> \<exists>c'. runHooks h names c = Inr c'"
proof (induction names arbitrary: c)
  case Nil
  then show ?case by simp
next
  case (Cons name names)
  from Cons.prems have "name \<in> Name ` set (Cases c)" by simp
  from getIdByName_resolved [OF this] runAt_ok [of "getIdByName c name" c h]
  obtain c1 where r1: "runAt h (getIdByName c name) c = Inr c1" by blast
  from static_name_set [OF runAt_static [OF r1]] Cons.prems
  have "\<forall>n \<in> set names. n \<in> Name ` set (Cases c1)" by simp
  from Cons.IH [OF this] r1 show ?case by simp
qed

lemma runHooks_unresolved:
  "name \<in> set names \<Longrightarrow> name \<notin> Name ` set (Cases c) \<Longrightarrow>
     runHooks h names c = Inl (IndexOutOfRange (- 1))"
proof (induction names arbitrary: c)
  case Nil
  then show ?case by simp
next
  case (Cons n names)
  show ?case
  proof (cases "n \<in> Name ` set (Cases c)")
    case True
    with Cons.prems have mem: "name \<in> set names" by auto
    from getIdByName_resolved [OF True] runAt_ok [of "getIdByName c n" c h]
    obtain c1 where r1: "runAt h (getIdByName c n) c = Inr c1" by blast
    from static_name_set [OF runAt_static [OF r1]] Cons.prems
    have "name \<notin> Name ` set (Cases c1)" by simp
    from Cons.IH [OF mem this] r1 show ?thesis by simp
  next
    case False
    then show ?thesis by (simp add: getIdByName_unresolved runAt_def)
  qed
qed

lemma runHooks_keeps_empty:
  "runHooks h names c = Inr c' \<Longrightarrow> i < length (Cases c) \<Longrightarrow> Script (Cases c ! i) = '''' \<Longrightarrow>
     Cases c' ! i = Cases c ! i"
proof (induction names arbitrary: c)
  case Nil
  then show ?case by simp
next
  case (Cons name names)
  from Cons.prems(1) obtain c1 where r1: "runAt h (getIdByName c name) c = Inr c1"
    and r2: "runHooks h names c1 = Inr c'"
    by (auto split: sum.splits)
  from runAt_keeps_empty [OF r1 Cons.prems(3) Cons.prems(2)] have k: "Cases c1 ! i = Cases c ! i" .
  from runAt_frame [OF r1] Cons.prems(2) have l: "i < length (Cases c1)" by simp
  from Cons.IH [OF r2 l] k Cons.prems(3) show ?case by simp
qed

lemma static_fields:
  "Before (staticPart s) = Before s" "After (staticPart s) = After s" "Script (staticPart s) = Script s"
  "Name (staticPart s) = Name s" "Skip (staticPart s) = Skip s" "canShow (staticPart s) = canShow s"
  "canRun (staticPart s) = canRun s" "Weight (staticPart s) = Weight s"
  by (simp_all add: staticPart_def)

lemma static_nth_fields:
  assumes "map staticPart cs = map staticPart cs'" "j < length cs"
  shows "Before (cs ! j) = Before (cs' ! j)" "After (cs ! j) = After (cs' ! j)"
    "Script (cs ! j) = Script (cs' ! j)"
proof -
  note e = static_nth [OF assms]
  show "Before (cs ! j) = Before (cs' ! j)" using arg_cong [OF e, of Before] by (simp add: static_fields)
  show "After (cs ! j) = After (cs' ! j)" using arg_cong [OF e, of After] by (simp add: static_fields)
  show "Script (cs ! j) = Script (cs' ! j)" using arg_cong [OF e, of Script] by (simp add: static_fields)
qed

lemma exec_empty: "item < length (Cases c) \<Longrightarrow> Script (Cases c ! item) = '''' \<Longrightarrow> exec h item c = Inr c"
  by (simp add: exec_def)

lemma exec_Inr:
  assumes "exec h item c = Inr c'" "Script (Cases c ! item) \<noteq> ''''"
  shows "item < length (Cases c) \<and> (\<exists>c1 c2 c3.
           runHooks h (Before (Cases c ! item)) (c\<lparr>ticks := Suc (ticks c)\<rparr>) = Inr c1
         \<and> runAt h (int item) c1 = Inr c2
         \<and> runHooks h (After (Cases c2 ! item)) c2 = Inr c3
         \<and> c' = c3\<lparr>Cases := (Cases c3)[item := (Cases c3 ! item)
                          \<lparr>Duration := durationOf h (now h (ticks c)) (now h (ticks c3))\<rparr>],
                    ticks := Suc (ticks c3)\<rparr>)"
  using assms by (auto simp: exec_def Let_def split: if_splits sum.splits)

lemma exec_ok:
  assumes "item < length (Cases c)" "Script (Cases c ! item) \<noteq> ''''"
    and "runHooks h (Before (Cases c ! item)) (c\<lparr>ticks := Suc (ticks c)\<rparr>) = Inr c1"
    and "runAt h (int item) c1 = Inr c2"
    and "runHooks h (After (Cases c2 ! item)) c2 = Inr c3"
  shows "exec h item c = Inr (c3\<lparr>Cases := (Cases c3)[item := (Cases c3 ! item)
                          \<lparr>Duration := durationOf h (now h (ticks c)) (now h (ticks c3))\<rparr>],
                    ticks := Suc (ticks c3)\<rparr>)"
  using assms by (simp add: exec_def Let_def)

lemma exec_hooks_trace:
  assumes item: "item < length (Cases c)" and scr: "Script (Cases c ! item) \<noteq> ''''"
    and res: "\<forall>name \<in> set (Before (Cases c ! item) @ After (Cases c ! item)). name \<in> Name ` set (Cases c)"
  shows "\<exists>c'. exec h item c = Inr c' \<and>
           trace c' = trace c @ map (invokeOf h (Cases c))
             (hookIds c (Before (Cases c ! item)) @ [item] @ hookIds c (After (Cases c ! item)))"
proof -
  let ?c0 = "c\<lparr>ticks := Suc (ticks c)\<rparr>"
  have c0: "Cases ?c0 = Cases c" "trace ?c0 = trace c" by simp_all
  from res have "\<forall>name \<in> set (Before (Cases c ! item)). name \<in> Name ` set (Cases ?c0)" by simp
  from runHooks_resolved [OF this]
  obtain c1 where r1: "runHooks h (Before (Cases c ! item)) ?c0 = Inr c1" by blast
  from runHooks_frame [OF r1] c0
  have st1: "map staticPart (Cases c1) = map staticPart (Cases c)"
    and len1: "length (Cases c1) = length (Cases c)"
    and tr1: "trace c1 = trace c @ map (invokeOf h (Cases c)) (hookIds ?c0 (Before (Cases c ! item)))"
    by simp_all
  have h0: "hookIds ?c0 (Before (Cases c ! item)) = hookIds c (Before (Cases c ! item))"
    by (rule static_hookIds) simp
  from item len1 have "0 \<le> int item" "int item < int (length (Cases c1))" by simp_all
  from runAt_ok [OF this, of h]
  obtain c2 where r2: "runAt h (int item) c1 = Inr c2" by blast
  from runAt_static [OF r2] st1 have st2: "map staticPart (Cases c2) = map staticPart (Cases c)" by simp
  from runAt_frame [OF r2] len1 have len2: "length (Cases c2) = length (Cases c)"
    and tr2: "trace c2 = trace c1 @ [invokeOf h (Cases c1) item]" by simp_all
  from static_invokeOf [OF st1, of item h] item len1
  have inv2: "invokeOf h (Cases c1) item = invokeOf h (Cases c) item" by simp
  from static_nth_fields(2) [OF st2, of item] item len2
  have aft: "After (Cases c2 ! item) = After (Cases c ! item)" by simp
  from res static_name_set [OF st2]
  have "\<forall>name \<in> set (After (Cases c2 ! item)). name \<in> Name ` set (Cases c2)" by (simp add: aft)
  from runHooks_resolved [OF this]
  obtain c3 where r3: "runHooks h (After (Cases c2 ! item)) c2 = Inr c3" by blast
  from runHooks_frame [OF r3]
  have tr3: "trace c3 = trace c2 @ map (invokeOf h (Cases c2)) (hookIds c2 (After (Cases c2 ! item)))"
    by simp
  have h3: "hookIds c2 (After (Cases c2 ! item)) = hookIds c (After (Cases c ! item))"
    using static_hookIds [OF st2] aft by simp
  have rng3: "\<forall>j \<in> set (hookIds c (After (Cases c ! item))). j < length (Cases c2)"
  proof
    fix j assume "j \<in> set (hookIds c (After (Cases c ! item)))"
    then obtain name where n: "name \<in> set (After (Cases c ! item))" and j: "j = nat (getIdByName c name)"
      by (auto simp: hookIds_def)
    from res n have "name \<in> Name ` set (Cases c)" by simp
    from getIdByName_resolved [OF this] j len2 show "j < length (Cases c2)" by (simp add: nat_less_iff)
  qed
  have inv3: "map (invokeOf h (Cases c2)) (hookIds c (After (Cases c ! item)))
            = map (invokeOf h (Cases c)) (hookIds c (After (Cases c ! item)))"
    using rng3 static_invokeOf [OF st2] by simp
  from exec_ok [OF item scr r1 r2 r3] tr1 tr2 tr3 h0 h3 inv2 inv3
  show ?thesis by simp
qed

lemma exec_unresolved:
  assumes item: "item < length (Cases c)" and scr: "Script (Cases c ! item) \<noteq> ''''"
    and mem: "name \<in> set (Before (Cases c ! item) @ After (Cases c ! item))"
    and unres: "name \<notin> Name ` set (Cases c)"
  shows "exec h item c = Inl (IndexOutOfRange (- 1))"
proof (cases "\<forall>n \<in> set (Before (Cases c ! item)). n \<in> Name ` set (Cases c)")
  case False
  then obtain n where n: "n \<in> set (Before (Cases c ! item))" "n \<notin> Name ` set (Cases (c\<lparr>ticks := Suc (ticks c)\<rparr>))"
    by auto
  from runHooks_unresolved [OF n, of h] item scr show ?thesis
    by (simp add: exec_def Let_def)
next
  case True
  let ?c0 = "c\<lparr>ticks := Suc (ticks c)\<rparr>"
  from True have "\<forall>n \<in> set (Before (Cases c ! item)). n \<in> Name ` set (Cases ?c0)" by simp
  from runHooks_resolved [OF this]
  obtain c1 where r1: "runHooks h (Before (Cases c ! item)) ?c0 = Inr c1" by blast
  from runHooks_frame [OF r1]
  have st1: "map staticPart (Cases c1) = map staticPart (Cases c)"
    and len1: "length (Cases c1) = length (Cases c)" by simp_all
  from item len1 have "0 \<le> int item" "int item < int (length (Cases c1))" by simp_all
  from runAt_ok [OF this, of h]
  obtain c2 where r2: "runAt h (int item) c1 = Inr c2" by blast
  from runAt_static [OF r2] st1 have st2: "map staticPart (Cases c2) = map staticPart (Cases c)" by simp
  from runAt_frame [OF r2] len1 have len2: "length (Cases c2) = length (Cases c)" by simp
  from static_nth_fields(2) [OF st2, of item] item len2
  have aft: "After (Cases c2 ! item) = After (Cases c ! item)" by simp
  from True mem unres have m: "name \<in> set (After (Cases c2 ! item))" by (auto simp: aft)
  from unres static_name_set [OF st2] have u: "name \<notin> Name ` set (Cases c2)" by simp
  from runHooks_unresolved [OF m u, of h] r1 r2 item scr show ?thesis
    by (simp add: exec_def Let_def)
qed

lemma exec_static:
  assumes "exec h item c = Inr c'"
  shows "map staticPart (Cases c') = map staticPart (Cases c) \<and> length (Cases c') = length (Cases c)"
proof (cases "Script (Cases c ! item) = ''''")
  case True
  with assms show ?thesis by (auto simp: exec_def split: if_splits)
next
  case False
  from exec_Inr [OF assms False] obtain c1 c2 c3 where item: "item < length (Cases c)"
    and r1: "runHooks h (Before (Cases c ! item)) (c\<lparr>ticks := Suc (ticks c)\<rparr>) = Inr c1"
    and r2: "runAt h (int item) c1 = Inr c2"
    and r3: "runHooks h (After (Cases c2 ! item)) c2 = Inr c3"
    and c': "Cases c' = (Cases c3)[item := (Cases c3 ! item)
                          \<lparr>Duration := durationOf h (now h (ticks c)) (now h (ticks c3))\<rparr>]"
    by auto
  from runHooks_frame [OF r1] runAt_static [OF r2] runAt_frame [OF r2] runHooks_frame [OF r3]
  have st3: "map staticPart (Cases c3) = map staticPart (Cases c)"
    and len3: "length (Cases c3) = length (Cases c)" by simp_all
  have "map staticPart (Cases c') = (map staticPart (Cases c3))[item := staticPart (Cases c3 ! item)]"
    by (simp add: c' map_update staticPart_def)
  also have "\<dots> = map staticPart (Cases c3)"
    using item len3 by (simp add: list_update_same_conv)
  finally show ?thesis using st3 len3 by (simp add: c')
qed

lemma exec_keeps_empty:
  assumes ex: "exec h item c = Inr c'" and i: "i < length (Cases c)" and e: "Script (Cases c ! i) = ''''"
  shows "Cases c' ! i = Cases c ! i"
proof (cases "Script (Cases c ! item) = ''''")
  case True
  with ex show ?thesis by (auto simp: exec_def split: if_splits)
next
  case False
  from exec_Inr [OF ex False] obtain c1 c2 c3 where item: "item < length (Cases c)"
    and r1: "runHooks h (Before (Cases c ! item)) (c\<lparr>ticks := Suc (ticks c)\<rparr>) = Inr c1"
    and r2: "runAt h (int item) c1 = Inr c2"
    and r3: "runHooks h (After (Cases c2 ! item)) c2 = Inr c3"
    and c': "Cases c' = (Cases c3)[item := (Cases c3 ! item)
                          \<lparr>Duration := durationOf h (now h (ticks c)) (now h (ticks c3))\<rparr>]"
    by auto
  from runHooks_keeps_empty [OF r1, of i] i e have k1: "Cases c1 ! i = Cases c ! i" by simp
  from runHooks_frame [OF r1] i have l1: "i < length (Cases c1)" by simp
  from runAt_keeps_empty [OF r2 _ l1] k1 e have k2: "Cases c2 ! i = Cases c ! i" by simp
  from runAt_frame [OF r2] l1 have l2: "i < length (Cases c2)" by simp
  from runHooks_keeps_empty [OF r3 l2] k2 e have k3: "Cases c3 ! i = Cases c ! i" by simp
  from False e have "item \<noteq> i" by auto
  then show ?thesis by (simp add: c' k3)
qed

lemma getScenarioIdsFrom_Cons:
  "getScenarioIdsFrom i (s # rest) =
     (if selected s then i # getScenarioIdsFrom (Suc i) rest else getScenarioIdsFrom (Suc i) rest)"
  by (simp add: selected_def)

lemma upt_shift: "[k..<k + Suc n] = k # [Suc k..<Suc k + n]"
  by (simp add: upt_conv_Cons)

lemma getScenarioIdsFrom_filter:
  "getScenarioIdsFrom (length pre) cs
     = filter (\<lambda>i. selected ((pre @ cs) ! i)) [length pre..<length pre + length cs]"
proof (induction cs arbitrary: pre)
  case Nil
  then show ?case by simp
next
  case (Cons s cs)
  have up: "[length pre..<length pre + length (s # cs)]
              = length pre # [length (pre @ [s])..<length (pre @ [s]) + length cs]"
    using upt_shift [of "length pre" "length cs"] by simp
  have ih: "getScenarioIdsFrom (Suc (length pre)) cs
     = filter (\<lambda>i. selected ((pre @ s # cs) ! i)) [length (pre @ [s])..<length (pre @ [s]) + length cs]"
    using Cons.IH [of "pre @ [s]"] by simp
  show ?case unfolding up using ih
    by (simp add: getScenarioIdsFrom_Cons del: getScenarioIdsFrom.simps)
qed

lemma fold_ids:
  "fold (\<lambda>i. g ((pre @ cs) ! i)) (getScenarioIdsFrom (length pre) cs) acc
     = fold g (filter selected cs) acc"
proof (induction cs arbitrary: pre acc)
  case Nil
  then show ?case by simp
next
  case (Cons s cs)
  have ih: "\<And>a. fold (\<lambda>i. g ((pre @ s # cs) ! i)) (getScenarioIdsFrom (Suc (length pre)) cs) a
               = fold g (filter selected cs) a"
    using Cons.IH [of "pre @ [s]"] by simp
  show ?case using ih
    by (simp add: getScenarioIdsFrom_Cons del: getScenarioIdsFrom.simps)
qed

lemma fold_ids0:
  "fold (\<lambda>i. g (cs ! i)) (getScenarioIdsFrom 0 cs) acc = fold g (filter selected cs) acc"
  using fold_ids [of g "[]" cs acc] by simp

lemma scored_selected: "filter CanShow (filter selected cs) = scored cs"
  by (induction cs) (auto simp: scored_def selected_def CanShow_def)

lemma fold_count:
  "fold (\<lambda>s (r::int). if CanShow s then r + 1 else r) xs acc = acc + int (length (filter CanShow xs))"
  by (induction xs arbitrary: acc) auto

lemma getScenarioCount_scored: "getScenarioCount c = int (length (scored (Cases c)))"
proof -
  have "getScenarioCount c = fold (\<lambda>i. (\<lambda>s (r::int). if CanShow s then r + 1 else r) (Cases c ! i))
           (getScenarioIdsFrom 0 (Cases c)) 0"
    by (simp add: getScenarioCount_def getScenarioIds_def)
  also have "\<dots> = fold (\<lambda>s (r::int). if CanShow s then r + 1 else r) (filter selected (Cases c)) 0"
    by (rule fold_ids0)
  also have "\<dots> = int (length (scored (Cases c)))"
    by (simp add: fold_count scored_selected del: filter_filter)
  finally show ?thesis .
qed

lemma signOffItem_cases:
  "\<not> CanShow x \<Longrightarrow> signOffItem x t = t"
  "CanShow x \<Longrightarrow> IsSuccessful x \<Longrightarrow> signOffItem x t =
     t\<lparr>all_acc := all_acc t + 1, max_acc := max_acc t + Weight x, sum_acc := sum_acc t + Weight x\<rparr>"
  "CanShow x \<Longrightarrow> \<not> IsSuccessful x \<Longrightarrow> signOffItem x t =
     t\<lparr>all_acc := all_acc t + 1, max_acc := max_acc t + Weight x, failed_acc := failed_acc t + 1\<rparr>"
  by (simp_all add: signOffItem_def Let_def)

lemma fold_signOffItem:
  "fold signOffItem xs t =
     \<lparr>sum_acc = sum_acc t + sum_list (map Weight (filter IsSuccessful (filter CanShow xs))),
      max_acc = max_acc t + sum_list (map Weight (filter CanShow xs)),
      failed_acc = failed_acc t + int (length (filter (\<lambda>s. \<not> IsSuccessful s) (filter CanShow xs))),
      all_acc = all_acc t + int (length (filter CanShow xs))\<rparr>"
proof (induction xs arbitrary: t)
  case Nil
  then show ?case by simp
next
  case (Cons x xs)
  show ?case
  proof (cases "CanShow x")
    case False
    then show ?thesis by (simp add: Cons.IH signOffItem_cases del: filter_filter)
  next
    case True
    then show ?thesis
      by (cases "IsSuccessful x") (simp_all add: Cons.IH signOffItem_cases add.assoc del: filter_filter)
  qed
qed

lemma signOffTally_scored:
  "signOffTally c =
     \<lparr>sum_acc = sum_list (map Weight (filter IsSuccessful (scored (Cases c)))),
      max_acc = sum_list (map Weight (scored (Cases c))),
      failed_acc = int (length (filter (\<lambda>s. \<not> IsSuccessful s) (scored (Cases c)))),
      all_acc = int (length (scored (Cases c)))\<rparr>"
proof -
  have "signOffStep c = (\<lambda>i. signOffItem (Cases c ! i))"
    by (rule ext)+ (simp add: signOffStep_def signOffItem_def Let_def)
  then have "signOffTally c = fold signOffItem (filter selected (Cases c))
               \<lparr>sum_acc = 0, max_acc = 0, failed_acc = 0, all_acc = 0\<rparr>"
    by (simp add: signOffTally_def getScenarioIds_def fold_ids0)
  then show ?thesis by (simp add: fold_signOffItem scored_selected del: filter_filter)
qed

lemmas run_defs = main_def getConf_def exampleHost_def zeroSuite_def zeroItem_def
  printHeader_def runner_def runnerIds_def getScenarioCount_def getScenarioIds_def
  exec_def runAt_def RunBash_def envEntries_def durationOf_def truncateMs_def
  signOff_def signOffTally_def signOffStep_def float64_div_def printSummary_def
  printTestStatus_def CanShow_def IsSuccessful_def IsFailed_def getIdByName_def Let_def

lemma runScenarios_static:
  "runScenarios h ids c = Inr c' \<Longrightarrow>
     map staticPart (Cases c') = map staticPart (Cases c) \<and> length (Cases c') = length (Cases c)"
proof (induction ids arbitrary: c)
  case Nil
  then show ?case by simp
next
  case (Cons i ids)
  from Cons.prems obtain c1 where e: "exec h i c = Inr c1" and r: "runScenarios h ids c1 = Inr c'"
    by (auto split: sum.splits if_splits option.splits)
  from exec_static [OF e] Cons.IH [OF r] show ?case by simp
qed

lemma runScenarios_keeps_empty:
  "runScenarios h ids c = Inr c' \<Longrightarrow> i < length (Cases c) \<Longrightarrow> Script (Cases c ! i) = '''' \<Longrightarrow>
     Cases c' ! i = Cases c ! i"
proof (induction ids arbitrary: c)
  case Nil
  then show ?case by simp
next
  case (Cons j ids)
  from Cons.prems(1) obtain c1 where e: "exec h j c = Inr c1" and r: "runScenarios h ids c1 = Inr c'"
    by (auto split: sum.splits if_splits option.splits)
  from exec_keeps_empty [OF e Cons.prems(2,3)] have k: "Cases c1 ! i = Cases c ! i" .
  from exec_static [OF e] Cons.prems(2) have l: "i < length (Cases c1)" by simp
  from Cons.IH [OF r l] k Cons.prems(3) show ?case by simp
qed

lemma find_append_cases:
  "find P (xs @ ys) = (case find P xs of Some x \<Rightarrow> Some x | None \<Rightarrow> find P ys)"
  by (induction xs) auto

lemma nearestDeclaring_Cons_0: "nearestDeclaring P (s # cs) 0 = (if P s then Some s else None)"
  by (simp add: nearestDeclaring_def)

lemma nearestDeclaring_Cons_Suc:
  "nearestDeclaring P (s # cs) (Suc i) =
     (case nearestDeclaring P cs i of Some x \<Rightarrow> Some x | None \<Rightarrow> if P s then Some s else None)"
  by (simp add: nearestDeclaring_def find_append_cases split: option.splits)

lemma getConfLoop_length: "length (getConfLoop cwd envs wdir cs) = length cs"
  by (induction cs arbitrary: envs wdir) (simp_all add: Let_def)

lemma getConfLoop_env:
  "i < length cs \<Longrightarrow>
     GlobalEnv (getConfLoop cwd envs wdir cs ! i) =
       (case nearestDeclaring (\<lambda>s. GlobalEnv s \<noteq> None) cs i of Some s \<Rightarrow> GlobalEnv s | None \<Rightarrow> envs)"
proof (induction cs arbitrary: envs wdir i)
  case Nil
  then show ?case by simp
next
  case (Cons s cs)
  show ?case
  proof (cases i)
    case 0
    then show ?thesis by (auto simp: Let_def nearestDeclaring_Cons_0 CanShow_def)
  next
    case (Suc j)
    with Cons.prems have j: "j < length cs" by simp
    show ?thesis unfolding Suc
      by (auto simp: Let_def nearestDeclaring_Cons_Suc Cons.IH [OF j] split: option.splits)
  qed
qed

lemma getConfLoop_workdir:
  "i < length cs \<Longrightarrow>
     Workdir (getConfLoop cwd envs wdir cs ! i) =
       (case nearestDeclaring (\<lambda>s. Workdir s \<noteq> '''') cs i of
          Some s \<Rightarrow> Workdir s
        | None \<Rightarrow> if i = 0 then wdir else if wdir = '''' then cwd else wdir)"
proof (induction cs arbitrary: envs wdir i)
  case Nil
  then show ?case by simp
next
  case (Cons s cs)
  show ?case
  proof (cases i)
    case 0
    then show ?thesis by (auto simp: Let_def nearestDeclaring_Cons_0 CanShow_def)
  next
    case (Suc j)
    with Cons.prems have j: "j < length cs" by simp
    show ?thesis unfolding Suc
      by (auto simp: Let_def nearestDeclaring_Cons_Suc Cons.IH [OF j] split: option.splits)
  qed
qed

lemma getConfLoop_names:
  "map Name (getConfLoop cwd envs wdir cs) = map Name cs"
  by (induction cs arbitrary: envs wdir) (simp_all add: Let_def CanShow_def)

lemma getConfLoop_weight:
  "\<forall>s \<in> set (getConfLoop cwd envs wdir cs). CanShow s \<longrightarrow> Weight s \<noteq> 0"
  by (induction cs arbitrary: envs wdir) (simp_all add: Let_def CanShow_def)

lemma inherited_start:
  "(if i = 0 then startDir h else if startDir h = '''' then getwd h else startDir h) = startDir h"
  by (simp add: startDir_def)

lemma lookupEnv_append:
  "lookupEnv (xs @ ys) k = (case lookupEnv ys k of Some v \<Rightarrow> Some v | None \<Rightarrow> lookupEnv xs k)"
  by (induction xs) (auto split: option.splits)

lemma envKey_entry: "CHR ''='' \<notin> set key \<Longrightarrow> envKey (key @ ''='' @ val) = key"
  unfolding envKey_def by (induction key) auto

lemma envValue_entry: "CHR ''='' \<notin> set key \<Longrightarrow> envValue (key @ ''='' @ val) = val"
  unfolding envValue_def by (induction key) auto

lemma lookupEnv_entries:
  "distinct (map fst kvs) \<Longrightarrow> \<forall>key \<in> fst ` set kvs. CHR ''='' \<notin> set key \<Longrightarrow>
     lookupEnv (envEntries (Some kvs)) k = map_of kvs k"
proof (induction kvs)
  case Nil
  then show ?case by (simp add: envEntries_def)
next
  case (Cons kv kvs)
  obtain key val where kv: "kv = (key, val)" by (cases kv)
  from Cons.prems have d: "distinct (map fst kvs)" and f: "\<forall>key \<in> fst ` set kvs. CHR ''='' \<notin> set key"
    and nk: "key \<notin> fst ` set kvs" and ke: "CHR ''='' \<notin> set key"
    by (auto simp: kv)
  from Cons.IH [OF d f] have ih: "lookupEnv (map (\<lambda>(key, val). key @ ''='' @ val) kvs) k = map_of kvs k"
    by (simp add: envEntries_def)
  show ?case
  proof (cases "k = key")
    case True
    with nk have "map_of kvs k = None" by (simp add: map_of_eq_None_iff)
    with ih True ke show ?thesis
      using envKey_entry [OF ke, of val] envValue_entry [OF ke, of val]
      by (simp add: envEntries_def kv)
  next
    case False
    with ih ke show ?thesis
      using envKey_entry [OF ke, of val]
      by (simp add: envEntries_def kv split: option.splits)
  qed
qed

lemma getConf_Inr:
  "unmarshal h config = Some t \<Longrightarrow>
     getConf h config = Inr (t\<lparr>Cases := getConfLoop (getwd h) None (startDir h) (Cases t)\<rparr>)"
  by (simp add: getConf_def startDir_def)

lemma getConfLoop_selected:
  "\<forall>s \<in> set cs. \<not> canShow s \<and> \<not> canRun s \<Longrightarrow>
     map selected (getConfLoop cwd envs wdir cs) = map eligible cs"
  by (induction cs arbitrary: envs wdir)
     (simp_all add: Let_def CanShow_def displayable_def eligible_def selected_def)

lemma getConfLoop_displayable:
  "\<forall>s \<in> set cs. \<not> canShow s \<and> \<not> canRun s \<Longrightarrow>
     \<forall>s \<in> set (getConfLoop cwd envs wdir cs). CanShow s = displayable s"
  by (induction cs arbitrary: envs wdir) (simp_all add: Let_def CanShow_def displayable_def)

lemma getConfLoop_scored:
  "\<forall>s \<in> set cs. \<not> canShow s \<and> \<not> canRun s \<Longrightarrow>
     length (scored (getConfLoop cwd envs wdir cs)) = length (filter (\<lambda>s. \<not> Skip s \<and> displayable s) cs)"
  by (induction cs arbitrary: envs wdir)
     (simp_all add: Let_def CanShow_def displayable_def scored_def)

lemma getScenarioIds_resolved:
  assumes "\<forall>s \<in> set cs. \<not> canShow s \<and> \<not> canRun s"
  shows "getScenarioIdsFrom 0 (getConfLoop cwd envs wdir cs) = filter (\<lambda>i. eligible (cs ! i)) [0..<length cs]"
proof -
  let ?cs = "getConfLoop cwd envs wdir cs"
  have "getScenarioIdsFrom 0 ?cs = filter (\<lambda>i. selected (?cs ! i)) [0..<length ?cs]"
    using getScenarioIdsFrom_filter [of "[]" ?cs] by simp
  also have "\<dots> = filter (\<lambda>i. eligible (cs ! i)) [0..<length cs]"
  proof (rule filter_cong)
    show "[0..<length ?cs] = [0..<length cs]" by (simp add: getConfLoop_length)
  next
    fix i assume "i \<in> set [0..<length cs]"
    then have i: "i < length cs" by simp
    have "selected (?cs ! i) = map selected ?cs ! i" using i by (simp add: getConfLoop_length)
    also have "\<dots> = map eligible cs ! i" by (simp only: getConfLoop_selected [OF assms])
    also have "\<dots> = eligible (cs ! i)" using i by simp
    finally show "selected (?cs ! i) = eligible (cs ! i)" .
  qed
  finally show ?thesis .
qed

lemma main_Inr:
  "main h config = Inr (c, out) \<Longrightarrow>
     \<exists>c0 c1. getConf h config = Inr c0 \<and> runner h (printHeader h c0) = Inr c1
           \<and> c = signOff h c1 \<and> out = printSummary c"
  by (auto simp: main_def Let_def split: sum.splits)

lemma signOff_Cases: "Cases (signOff h c) = Cases c"
  by (simp add: signOff_def Let_def)

lemma signOffTally_cong: "Cases c = Cases c' \<Longrightarrow> signOffTally c = signOffTally c'"
  by (simp add: signOffTally_scored)

lemma static_label: "Case (staticPart s) = Case s" "GlobalEnv (staticPart s) = GlobalEnv s"
  by (simp_all add: staticPart_def)

lemma static_displayable:
  assumes "map staticPart cs = map staticPart cs'" and "\<forall>s \<in> set cs'. CanShow s = displayable s"
  shows "\<forall>s \<in> set cs. CanShow s = displayable s"
proof
  fix s assume "s \<in> set cs"
  then have "staticPart s \<in> set (map staticPart cs')" using assms(1) by (metis imageI list.set_map)
  then obtain s' where s': "s' \<in> set cs'" and e: "staticPart s = staticPart s'" by auto
  have "canShow s = canShow (staticPart s)" by (simp add: static_fields)
  also have "\<dots> = canShow s'" by (simp add: e static_fields)
  finally have c1: "canShow s = canShow s'" .
  have "Case s = Case (staticPart s)" by (simp add: static_label)
  also have "\<dots> = Case s'" by (simp add: e static_label)
  finally have c2: "Case s = Case s'" .
  note c1 c2
  with assms(2) s' show "CanShow s = displayable s" by (simp add: CanShow_def displayable_def)
qed

lemma sint_sum_list:
  "sint (sum_list ws :: 64 word) = signed_take_bit 63 (sum_list (map sint ws))"
proof (induction ws)
  case Nil
  then show ?case by simp
next
  case (Cons w ws)
  have "sint (w + sum_list ws) = signed_take_bit 63 (sint w + sint (sum_list ws))"
    by (simp add: sint_word_ariths)
  also have "\<dots> = signed_take_bit 63 (sint w + signed_take_bit 63 (sum_list (map sint ws)))"
    by (simp only: Cons.IH)
  also have "\<dots> = signed_take_bit 63 (sint w + sum_list (map sint ws))"
    by (metis signed_take_bit_add signed_take_bit_signed_take_bit min.idem)
  finally show ?case by simp
qed

lemma sint_sum_list_exact:
  assumes "- (2 ^ 63) \<le> sum_list (map sint ws)" and "sum_list (map sint ws) < 2 ^ 63"
  shows "sint (sum_list ws :: 64 word) = sum_list (map sint ws)"
  unfolding sint_sum_list using assms by (simp add: signed_take_bit_int_eq_self)

lemma weightSum_exact:
  "- (2 ^ 63) \<le> exactWeightSum xs \<Longrightarrow> exactWeightSum xs < 2 ^ 63 \<Longrightarrow> sint (weightSum xs) = exactWeightSum xs"
  using sint_sum_list_exact [of "map Weight xs"] by (simp add: weightSum_def exactWeightSum_def comp_def)

lemma signOff_fields:
  "all (signOff h c) = all_acc (signOffTally c)"
  "failed (signOff h c) = failed_acc (signOffTally c)"
  "successfull (signOff h c) = all_acc (signOffTally c) - failed_acc (signOffTally c)"
  "score (signOff h c) = float64_div (100 * real_of_int (sint (sum_acc (signOffTally c))))
                                      (real_of_int (sint (max_acc (signOffTally c))))"
  by (simp_all add: signOff_def Let_def)

lemma signOffTally_fields:
  "sum_acc (signOffTally c) = weightSum (filter IsSuccessful (scored (Cases c)))"
  "max_acc (signOffTally c) = weightSum (scored (Cases c))"
  "failed_acc (signOffTally c) = int (length (filter (\<lambda>s. \<not> IsSuccessful s) (scored (Cases c))))"
  "all_acc (signOffTally c) = int (length (scored (Cases c)))"
  by (simp_all add: signOffTally_scored weightSum_def)
lemma runHooks_range:
  "runHooks h names c = Inr c' \<Longrightarrow> \<forall>j \<in> set (hookIds c names). j < length (Cases c)"
proof (induction names arbitrary: c)
  case Nil
  then show ?case by (simp add: hookIds_def)
next
  case (Cons n ns)
  from Cons.prems obtain d where d1: "runAt h (getIdByName c n) c = Inr d"
    and d2: "runHooks h ns d = Inr c'" by (auto split: sum.splits)
  from runAt_range [OF d1] have "nat (getIdByName c n) < length (Cases c)" by simp
  moreover from Cons.IH [OF d2] static_hookIds [OF runAt_static [OF d1]] runAt_frame [OF d1]
  have "\<forall>j \<in> set (hookIds c ns). j < length (Cases c)" by simp
  ultimately show ?case by (simp add: hookIds_def)
qed

lemma static_execCalls:
  assumes "map staticPart (Cases c1) = map staticPart (Cases c)" and "k < length (Cases c1)"
  shows "execCalls c1 k = execCalls c k"
  using static_nth_fields [OF assms] static_hookIds [OF assms(1)]
  by (simp add: execCalls_def)

lemma static_execEvents:
  assumes "map staticPart (Cases c1) = map staticPart (Cases c)" and "k < length (Cases c1)"
    and "\<forall>j \<in> set (execCalls c1 k). j < length (Cases c1)"
  shows "execEvents h c1 k = execEvents h c k"
proof -
  have "map (invokeOf h (Cases c1)) (execCalls c1 k) = map (invokeOf h (Cases c)) (execCalls c1 k)"
    using assms(3) static_invokeOf [OF assms(1)] by simp
  then show ?thesis by (simp add: execEvents_def static_execCalls [OF assms(1,2)])
qed

lemma exec_trace_Inr:
  assumes "exec h i c = Inr c'"
  shows "i < length (Cases c) \<and> trace c' = trace c @ execEvents h c i
         \<and> (\<forall>j \<in> set (execCalls c i). j < length (Cases c))"
proof (cases "Script (Cases c ! i) = ''''")
  case True
  with assms show ?thesis by (auto simp: exec_def execEvents_def execCalls_def split: if_splits)
next
  case False
  let ?c0 = "c\<lparr>ticks := Suc (ticks c)\<rparr>"
  from exec_Inr [OF assms False] obtain c1 c2 c3 where item: "i < length (Cases c)"
    and r1: "runHooks h (Before (Cases c ! i)) ?c0 = Inr c1"
    and r2: "runAt h (int i) c1 = Inr c2"
    and r3: "runHooks h (After (Cases c2 ! i)) c2 = Inr c3"
    and c': "trace c' = trace c3"
    by auto
  have h0: "\<And>names. hookIds ?c0 names = hookIds c names" by (rule static_hookIds) simp
  from runHooks_frame [OF r1]
  have st1: "map staticPart (Cases c1) = map staticPart (Cases c)"
    and len1: "length (Cases c1) = length (Cases c)"
    and tr1: "trace c1 = trace c @ map (invokeOf h (Cases c)) (hookIds c (Before (Cases c ! i)))"
    by (simp_all add: h0)
  from runHooks_range [OF r1] have rb: "\<forall>j \<in> set (hookIds c (Before (Cases c ! i))). j < length (Cases c)"
    by (simp add: h0)
  from runAt_static [OF r2] st1 have st2: "map staticPart (Cases c2) = map staticPart (Cases c)" by simp
  from runAt_frame [OF r2] len1 have len2: "length (Cases c2) = length (Cases c)"
    and tr2: "trace c2 = trace c1 @ [invokeOf h (Cases c1) i]" by simp_all
  from static_invokeOf [OF st1, of i h] item len1
  have inv2: "invokeOf h (Cases c1) i = invokeOf h (Cases c) i" by simp
  from static_nth_fields(2) [OF st2, of i] item len2
  have aft: "After (Cases c2 ! i) = After (Cases c ! i)" by simp
  have h3: "hookIds c2 (After (Cases c2 ! i)) = hookIds c (After (Cases c ! i))"
    using static_hookIds [OF st2] aft by simp
  from runHooks_range [OF r3] have ra: "\<forall>j \<in> set (hookIds c (After (Cases c ! i))). j < length (Cases c)"
    by (simp add: h3 len2)
  from runHooks_frame [OF r3]
  have tr3: "trace c3 = trace c2 @ map (invokeOf h (Cases c2)) (hookIds c (After (Cases c ! i)))"
    by (simp add: h3)
  have inv3: "map (invokeOf h (Cases c2)) (hookIds c (After (Cases c ! i)))
            = map (invokeOf h (Cases c)) (hookIds c (After (Cases c ! i)))"
    using ra len2 static_invokeOf [OF st2] by simp
  have tr: "trace c' = trace c @ execEvents h c i"
    using False by (simp add: c' tr3 tr2 tr1 inv2 inv3 execEvents_def execCalls_def)
  have rng: "\<forall>j \<in> set (execCalls c i). j < length (Cases c)"
    using False rb ra item by (auto simp: execCalls_def)
  from item tr rng show ?thesis by blast
qed

lemma runScenarios_step:
  "runScenarios h (i # ids) c = Inr c' \<Longrightarrow>
     \<exists>c1. exec h i c = Inr c1 \<and> runScenarios h ids c1 = Inr c'"
  by (auto split: sum.splits if_splits option.splits)

lemma runScenarios_trace:
  "runScenarios h ids c = Inr c' \<Longrightarrow>
     trace c' = trace c @ concat (map (execEvents h c) ids)
     \<and> (\<forall>i \<in> set ids. i < length (Cases c) \<and> (\<forall>j \<in> set (execCalls c i). j < length (Cases c)))"
proof (induction ids arbitrary: c)
  case Nil
  then show ?case by simp
next
  case (Cons i ids)
  from runScenarios_step [OF Cons.prems] obtain c1 where e: "exec h i c = Inr c1"
    and r: "runScenarios h ids c1 = Inr c'" by blast
  from exec_trace_Inr [OF e] have i: "i < length (Cases c)"
    and tr1: "trace c1 = trace c @ execEvents h c i"
    and rg1: "\<forall>j \<in> set (execCalls c i). j < length (Cases c)" by simp_all
  from exec_static [OF e] have st: "map staticPart (Cases c1) = map staticPart (Cases c)"
    and len: "length (Cases c1) = length (Cases c)" by simp_all
  from Cons.IH [OF r] have tr2: "trace c' = trace c1 @ concat (map (execEvents h c1) ids)"
    and rg2: "\<forall>k \<in> set ids. k < length (Cases c1) \<and> (\<forall>j \<in> set (execCalls c1 k). j < length (Cases c1))"
    by simp_all
  have ev: "map (execEvents h c1) ids = map (execEvents h c) ids"
  proof (rule map_cong [OF refl])
    fix k assume "k \<in> set ids"
    with rg2 have "k < length (Cases c1)" "\<forall>j \<in> set (execCalls c1 k). j < length (Cases c1)" by simp_all
    then show "execEvents h c1 k = execEvents h c k" by (rule static_execEvents [OF st])
  qed
  have rg: "\<forall>k \<in> set ids. k < length (Cases c) \<and> (\<forall>j \<in> set (execCalls c k). j < length (Cases c))"
  proof
    fix k assume k: "k \<in> set ids"
    with rg2 have a: "k < length (Cases c1)" and b: "\<forall>j \<in> set (execCalls c1 k). j < length (Cases c1)"
      by simp_all
    from static_execCalls [OF st a] a b len
    show "k < length (Cases c) \<and> (\<forall>j \<in> set (execCalls c k). j < length (Cases c))" by simp
  qed
  from tr1 tr2 ev i rg1 rg show ?case by simp
qed

lemma hooksResolve_cong:
  "map Name cs = map Name cs' \<Longrightarrow>
     map (\<lambda>s. Before s @ After s) cs = map (\<lambda>s. Before s @ After s) cs' \<Longrightarrow>
     hooksResolve cs = hooksResolve cs'"
  by (simp add: hooksResolve_def)

lemma static_hooks:
  assumes "map staticPart cs = map staticPart cs'"
  shows "map (\<lambda>s. Before s @ After s) cs = map (\<lambda>s. Before s @ After s) cs'"
proof -
  have "map (\<lambda>s. Before s @ After s) cs = map (\<lambda>s. Before s @ After s) (map staticPart cs)"
    by (simp add: static_fields)
  also have "\<dots> = map (\<lambda>s. Before s @ After s) (map staticPart cs')" using assms by simp
  also have "\<dots> = map (\<lambda>s. Before s @ After s) cs'" by (simp add: static_fields)
  finally show ?thesis .
qed

lemma static_hooksResolve:
  "map staticPart cs = map staticPart cs' \<Longrightarrow> hooksResolve cs = hooksResolve cs'"
  by (rule hooksResolve_cong) (rule static_names, assumption, rule static_hooks, assumption)

lemma getConfLoop_hooks:
  "map (\<lambda>s. Before s @ After s) (getConfLoop cwd envs wdir cs) = map (\<lambda>s. Before s @ After s) cs"
  by (induction cs arbitrary: envs wdir) (simp_all add: Let_def CanShow_def)

lemma getConfLoop_hooksResolve:
  "hooksResolve (getConfLoop cwd envs wdir cs) = hooksResolve cs"
  by (rule hooksResolve_cong) (rule getConfLoop_names, rule getConfLoop_hooks)

lemma hooksResolve_item:
  assumes "hooksResolve cs" and "i < length cs"
  shows "\<forall>name \<in> set (Before (cs ! i) @ After (cs ! i)). name \<in> Name ` set cs"
proof -
  from assms(1) have "\<forall>s \<in> set cs. \<forall>name \<in> set (Before s @ After s). name \<in> set (map Name cs)"
    unfolding hooksResolve_def list_all_iff by auto
  moreover from assms(2) have "cs ! i \<in> set cs" by simp
  ultimately show ?thesis by auto
qed

lemma exec_total:
  assumes "i < length (Cases c)" and "hooksResolve (Cases c)"
  shows "\<exists>c'. exec h i c = Inr c'"
proof (cases "Script (Cases c ! i) = ''''")
  case True
  with assms(1) show ?thesis by (simp add: exec_empty)
next
  case False
  from exec_hooks_trace [OF assms(1) False hooksResolve_item [OF assms(2,1)], of h]
  show ?thesis by blast
qed

lemma derefHooks_resolved:
  "\<forall>name \<in> set names. name \<in> Name ` set (Cases c) \<Longrightarrow> derefHooks c names = None"
proof (induction names)
  case Nil
  then show ?case by simp
next
  case (Cons n ns)
  from Cons.prems have "n \<in> Name ` set (Cases c)" by simp
  from getIdByName_resolved [OF this] Cons show ?case by (simp add: Let_def)
qed

lemma printTestStatus_resolved:
  assumes "i < length (Cases c)" and "hooksResolve (Cases c)"
  shows "printTestStatus h c i = None"
proof -
  from hooksResolve_item [OF assms(2,1)]
  have "derefHooks c (Before (Cases c ! i)) = None" "derefHooks c (After (Cases c ! i)) = None"
    by (simp_all add: derefHooks_resolved)
  with assms(1) show ?thesis by (simp add: printTestStatus_def Let_def)
qed

lemma runScenarios_total:
  "\<forall>i \<in> set ids. i < length (Cases c) \<Longrightarrow> hooksResolve (Cases c) \<Longrightarrow>
     \<exists>c'. runScenarios h ids c = Inr c'"
proof (induction ids arbitrary: c)
  case Nil
  then show ?case by simp
next
  case (Cons i ids)
  from Cons.prems have i: "i < length (Cases c)" by simp
  from exec_total [OF i Cons.prems(2), of h] obtain c1 where e: "exec h i c = Inr c1" by blast
  from exec_static [OF e] have st: "map staticPart (Cases c1) = map staticPart (Cases c)"
    and len: "length (Cases c1) = length (Cases c)" by simp_all
  from static_hooksResolve [OF st] Cons.prems(2) have hr: "hooksResolve (Cases c1)" by simp
  from i len have i1: "i < length (Cases c1)" by simp
  from Cons.prems(1) len have "\<forall>k \<in> set ids. k < length (Cases c1)" by simp
  from Cons.IH [OF this hr] obtain c' where r: "runScenarios h ids c1 = Inr c'" by blast
  from e r printTestStatus_resolved [OF i1 hr, of h] show ?case by simp
qed

lemma getScenarioIds_range: "\<forall>i \<in> set (getScenarioIds c). i < length (Cases c)"
  using getScenarioIdsFrom_filter [of "[]" "Cases c"] by (simp add: getScenarioIds_def)

lemma runnerIds_range: "\<forall>i \<in> set (runnerIds c). i < length (Cases c)"
  using getScenarioIds_range [of c] by (simp add: runnerIds_def)

lemma signOff_trace: "trace (signOff h c) = trace c"
  by (simp add: signOff_def Let_def)

section \<open>Scenarios without a script\<close>

text \<open>
  Claim C6.  For a scenario with an empty script body execution is a no-op: \<open>RunBash\<close>
  returns the scenario as it is and starts nothing; \<open>exec\<close> returns the whole state as it
  is, so no clock is read and none of its before and after hooks is run; and whatever
  sequence of scenarios the runner executes, also those that name it as a hook, the scenario
  keeps every field, so its status, output, result and duration stay what they were.
\<close>

theorem empty_script_noop:
  assumes "i < length (Cases c)" and "Script (Cases c ! i) = ''''"
  shows "RunBash h n (Cases c ! i) = (Cases c ! i, None)
       \<and> exec h i c = Inr c
       \<and> (\<forall>ids c'. runScenarios h ids c = Inr c' \<longrightarrow> Cases c' ! i = Cases c ! i)"
  using assms RunBash_empty exec_empty runScenarios_keeps_empty by blast

theorem empty_script_noop_witness:
  "1 < length (Cases (stateOf suiteInert)) \<and> Script (Cases (stateOf suiteInert) ! 1) = ''''
   \<and> exec (exampleHost [] suiteInert) 1 (stateOf suiteInert) = Inr (stateOf suiteInert)
   \<and> (\<exists>c'. runScenarios (exampleHost [] suiteInert) [1, 2] (stateOf suiteInert) = Inr c'
         \<and> Cases c' ! 1 = zeroItem\<lparr>Name := ''inert'', Case := ''inert'', Before := [''setup''], After := [''setup'']\<rparr>)"
proof -
  have a: "1 < length (Cases (stateOf suiteInert))" by (simp add: stateOf_def suiteInert_def zeroSuite_def)
  have b: "Script (Cases (stateOf suiteInert) ! 1) = ''''"
    by (simp add: stateOf_def suiteInert_def zeroSuite_def zeroItem_def)
  have c: "Cases (stateOf suiteInert) ! 1 = zeroItem\<lparr>Name := ''inert'', Case := ''inert'', Before := [''setup''], After := [''setup'']\<rparr>"
    by (simp add: stateOf_def suiteInert_def zeroSuite_def)
  have "\<exists>c'. runScenarios (exampleHost [] suiteInert) [1, 2] (stateOf suiteInert) = Inr c'"
    by (simp add: run_defs stateOf_def suiteInert_def)
  then obtain c' where d: "runScenarios (exampleHost [] suiteInert) [1, 2] (stateOf suiteInert) = Inr c'"
    by blast
  note t = empty_script_noop [OF a b, of "exampleHost [] suiteInert" 0]
  from t have e: "exec (exampleHost [] suiteInert) 1 (stateOf suiteInert) = Inr (stateOf suiteInert)"
    by (rule conjunct1 [OF conjunct2])
  from t d have f: "Cases c' ! 1 = Cases (stateOf suiteInert) ! 1" by blast
  from a b e d f c show ?thesis by (simp only:) blast
qed

section \<open>Order of hooks\<close>



section \<open>Unresolved hook names\<close>

text \<open>
  Claim C9.  When a name matches no scenario's name, resolution of the decoded suite still
  succeeds; in every state of the resolved suite the lookup of the name gives \<open>-1\<close>, and
  executing a scenario with a script that lists the name as a before or after hook ends
  in an index-out-of-range panic at index \<open>-1\<close>.
\<close>

theorem unresolved_helper_panics:
  assumes "unmarshal h config = Some t" and "name \<notin> Name ` set (Cases t)"
  shows "\<exists>c. getConf h config = Inr c \<and>
           (\<forall>c'. map staticPart (Cases c') = map staticPart (Cases c) \<longrightarrow>
              getIdByName c' name = - 1 \<and>
              (\<forall>item < length (Cases c').
                 Script (Cases c' ! item) \<noteq> '''' \<and>
                 name \<in> set (Before (Cases c' ! item) @ After (Cases c' ! item)) \<longrightarrow>
                 exec h item c' = Inl (IndexOutOfRange (- 1))))"
proof -
  let ?c = "t\<lparr>Cases := getConfLoop (getwd h) None (if workdir h \<noteq> '''' then workdir h else getwd h) (Cases t)\<rparr>"
  have g: "getConf h config = Inr ?c" using assms(1) by (simp add: getConf_def)
  have n: "Name ` set (Cases ?c) = Name ` set (Cases t)"
  proof -
    have "Name ` set (Cases ?c) = set (map Name (Cases ?c))" by simp
    also have "\<dots> = set (map Name (Cases t))" by (simp add: getConfLoop_names)
    finally show ?thesis by simp
  qed
  have "\<forall>c'. map staticPart (Cases c') = map staticPart (Cases ?c) \<longrightarrow>
              getIdByName c' name = - 1 \<and>
              (\<forall>item < length (Cases c').
                 Script (Cases c' ! item) \<noteq> '''' \<and>
                 name \<in> set (Before (Cases c' ! item) @ After (Cases c' ! item)) \<longrightarrow>
                 exec h item c' = Inl (IndexOutOfRange (- 1)))"
  proof (intro allI impI)
    fix c' :: suitConfig
    assume st: "map staticPart (Cases c') = map staticPart (Cases ?c)"
    from static_name_set [OF st] n assms(2) have u: "name \<notin> Name ` set (Cases c')" by simp
    have p1: "getIdByName c' name = - 1" by (rule getIdByName_unresolved [OF u])
    have p2: "\<forall>item < length (Cases c').
                 Script (Cases c' ! item) \<noteq> '''' \<and>
                 name \<in> set (Before (Cases c' ! item) @ After (Cases c' ! item)) \<longrightarrow>
                 exec h item c' = Inl (IndexOutOfRange (- 1))"
    proof (intro allI impI)
      fix item assume "item < length (Cases c')"
        and "Script (Cases c' ! item) \<noteq> '''' \<and>
                 name \<in> set (Before (Cases c' ! item) @ After (Cases c' ! item))"
      then show "exec h item c' = Inl (IndexOutOfRange (- 1))"
        using exec_unresolved [of item c' name h] u by blast
    qed
    from p1 p2 show "getIdByName c' name = - 1 \<and>
              (\<forall>item < length (Cases c').
                 Script (Cases c' ! item) \<noteq> '''' \<and>
                 name \<in> set (Before (Cases c' ! item) @ After (Cases c' ! item)) \<longrightarrow>
                 exec h item c' = Inl (IndexOutOfRange (- 1)))" by (rule conjI)
  qed
  with g show ?thesis by blast
qed

theorem unresolved_helper_panics_witness:
  "unmarshal (exampleHost [] suiteMissing) [] = Some (zeroSuite\<lparr>suitName := ''example'', Cases := suiteMissing\<rparr>)
   \<and> ''cleanup'' \<notin> Name ` set suiteMissing
   \<and> (\<exists>c. getConf (exampleHost [] suiteMissing) [] = Inr c \<and> getIdByName c ''cleanup'' = - 1
          \<and> exec (exampleHost [] suiteMissing) 0 c = Inl (IndexOutOfRange (- 1)))"
proof -
  let ?h = "exampleHost [] suiteMissing"
  let ?t = "zeroSuite\<lparr>suitName := ''example'', Cases := suiteMissing\<rparr>"
  have a: "unmarshal ?h [] = Some ?t" by (simp add: exampleHost_def)
  have b0: "''cleanup'' \<notin> Name ` set suiteMissing" by (simp add: suiteMissing_def zeroItem_def)
  then have b: "''cleanup'' \<notin> Name ` set (Cases ?t)" by simp
  from unresolved_helper_panics [OF a b] obtain c where g: "getConf ?h [] = Inr c"
    and r: "\<forall>c'. map staticPart (Cases c') = map staticPart (Cases c) \<longrightarrow>
              getIdByName c' ''cleanup'' = - 1 \<and>
              (\<forall>item < length (Cases c').
                 Script (Cases c' ! item) \<noteq> '''' \<and>
                 ''cleanup'' \<in> set (Before (Cases c' ! item) @ After (Cases c' ! item)) \<longrightarrow>
                 exec ?h item c' = Inl (IndexOutOfRange (- 1)))" by blast
  from g have cs: "Cases c = getConfLoop ''/home/check'' None ''/home/check'' suiteMissing"
    by (auto simp: getConf_def exampleHost_def zeroSuite_def)
  from r have r1: "getIdByName c ''cleanup'' = - 1" and
    r2: "\<forall>item < length (Cases c).
                 Script (Cases c ! item) \<noteq> '''' \<and>
                 ''cleanup'' \<in> set (Before (Cases c ! item) @ After (Cases c ! item)) \<longrightarrow>
                 exec ?h item c = Inl (IndexOutOfRange (- 1))" by blast+
  have "0 < length (Cases c) \<and> Script (Cases c ! 0) \<noteq> '''' \<and>
                 ''cleanup'' \<in> set (Before (Cases c ! 0) @ After (Cases c ! 0))"
    by (simp add: cs suiteMissing_def zeroItem_def Let_def CanShow_def)
  with r2 have r3: "exec ?h 0 c = Inl (IndexOutOfRange (- 1))" by blast
  from a b0 g r1 r3 show ?thesis by (simp only:) blast
qed

section \<open>Inheritance of environment and working directory\<close>

text \<open>
  Claim C4.  Resolution of a decoded suite succeeds, and the \<open>i\<close>-th scenario's resolved
  environment mapping is its own if it declares one, else that of the most recent earlier
  scenario that declares one, else \<open>nil\<close>, the empty mapping; its resolved working directory is
  its own if it is not empty, else that of the most recent earlier scenario with a
  non-empty one, else the start directory: the override of the command line if given,
  else the process's working directory.
\<close>

theorem resolution_inheritance:
  assumes "unmarshal h config = Some t" and "i < length (Cases t)"
  shows "\<exists>c. getConf h config = Inr c \<and> length (Cases c) = length (Cases t)
           \<and> GlobalEnv (Cases c ! i) = inheritedEnv (Cases t) i
           \<and> Workdir (Cases c ! i) = inheritedWorkdir (startDir h) (Cases t) i"
proof -
  let ?cs = "getConfLoop (getwd h) None (startDir h) (Cases t)"
  have g: "getConf h config = Inr (t\<lparr>Cases := ?cs\<rparr>)"
    using assms(1) by (simp add: getConf_def startDir_def)
  have e: "GlobalEnv (?cs ! i) = inheritedEnv (Cases t) i"
    by (simp add: getConfLoop_env [OF assms(2)] inheritedEnv_def)
  have w: "Workdir (?cs ! i) = inheritedWorkdir (startDir h) (Cases t) i"
    unfolding getConfLoop_workdir [OF assms(2)] inheritedWorkdir_def inherited_start ..
  from g e w show ?thesis by (simp add: getConfLoop_length)
qed

theorem resolution_inheritance_witness:
  "unmarshal (exampleHost ''/opt'' suiteInherit) [] = Some (zeroSuite\<lparr>suitName := ''example'', Cases := suiteInherit\<rparr>)
   \<and> 2 < length suiteInherit
   \<and> (\<exists>c. getConf (exampleHost ''/opt'' suiteInherit) [] = Inr c
        \<and> GlobalEnv (Cases c ! 2) = Some [(''MODE'', ''fast'')] \<and> Workdir (Cases c ! 2) = ''/srv'')"
proof -
  let ?h = "exampleHost ''/opt'' suiteInherit"
  let ?t = "zeroSuite\<lparr>suitName := ''example'', Cases := suiteInherit\<rparr>"
  have a: "unmarshal ?h [] = Some ?t" by (simp add: exampleHost_def)
  have b: "2 < length suiteInherit" by (simp add: suiteInherit_def)
  then have b': "2 < length (Cases ?t)" by simp
  have e: "inheritedEnv (Cases ?t) 2 = Some [(''MODE'', ''fast'')]"
    by (simp add: inheritedEnv_def nearestDeclaring_def suiteInherit_def zeroItem_def numeral_3_eq_3)
  have w: "inheritedWorkdir (startDir ?h) (Cases ?t) 2 = ''/srv''"
    by (simp add: inheritedWorkdir_def nearestDeclaring_def suiteInherit_def zeroItem_def numeral_3_eq_3)
  from resolution_inheritance [OF a b'] a b e w show ?thesis by (simp only:) blast
qed

section \<open>Environment of the subprocess\<close>

text \<open>
  Claim C5.  \<open>RunBash\<close> on a scenario with a non-empty script starts a subprocess whose
  \<open>Env\<close> list is the whole of \<open>os.Environ()\<close> followed by one \<open>key=value\<close> entry for every
  pair of the scenario's resolved environment mapping.  Read as the operating system reads
  it, this is the union of the two: a variable of the scenario has the scenario's value,
  also when the process defines it too, and every other variable has the process's
  value.  The keys of a Go map are distinct; they are taken to be free of \<open>=\<close>, as
  variable names are.
\<close>

theorem RunBash_environment:
  assumes "Script s \<noteq> ''''" and "distinct (map fst (scenarioEnv s))"
    and "\<forall>key \<in> fst ` set (scenarioEnv s). CHR ''='' \<notin> set key"
  shows "\<exists>l. snd (RunBash h n s) = Some l
           \<and> lenv l = environ h @ map (\<lambda>(key, val). key @ ''='' @ val) (scenarioEnv s)
           \<and> (\<forall>k. lookupEnv (lenv l) k =
                 (case map_of (scenarioEnv s) k of Some v \<Rightarrow> Some v | None \<Rightarrow> lookupEnv (environ h) k))"
proof -
  let ?l = "\<lparr>lscript = Script s, ldir = workdir h, lenv = environ h @ envEntries (GlobalEnv s)\<rparr>"
  have l: "snd (RunBash h n s) = Some ?l" using assms(1) by (simp add: RunBash_launch launchOf_def)
  have en: "envEntries (GlobalEnv s) = envEntries (Some (scenarioEnv s))"
    by (simp add: envEntries_def scenarioEnv_def split: option.splits)
  have lk: "\<And>k. lookupEnv (envEntries (GlobalEnv s)) k = map_of (scenarioEnv s) k"
    unfolding en by (rule lookupEnv_entries [OF assms(2,3)])
  have "lenv ?l = environ h @ map (\<lambda>(key, val). key @ ''='' @ val) (scenarioEnv s)"
    by (simp add: envEntries_def scenarioEnv_def split: option.splits)
  moreover have "\<forall>k. lookupEnv (lenv ?l) k =
                 (case map_of (scenarioEnv s) k of Some v \<Rightarrow> Some v | None \<Rightarrow> lookupEnv (environ h) k)"
    by (simp add: lookupEnv_append lk)
  ultimately show ?thesis using l by blast
qed

theorem RunBash_environment_witness:
  "Script itemEnv \<noteq> '''' \<and> distinct (map fst (scenarioEnv itemEnv))
   \<and> list_all (\<lambda>(key, val). CHR ''='' \<notin> set key) (scenarioEnv itemEnv)
   \<and> (\<exists>l. snd (RunBash (exampleHost [] [itemEnv]) 0 itemEnv) = Some l
        \<and> lenv l = [''PATH=/bin'', ''LANG=C'', ''LANG=de_DE'', ''MODE=fast'']
        \<and> lookupEnv (lenv l) ''LANG'' = Some ''de_DE''
        \<and> lookupEnv (lenv l) ''PATH'' = Some ''/bin''
        \<and> lookupEnv (lenv l) ''MODE'' = Some ''fast'')"
proof -
  let ?h = "exampleHost [] [itemEnv]"
  have a: "Script itemEnv \<noteq> ''''" by (simp add: itemEnv_def zeroItem_def)
  have se: "scenarioEnv itemEnv = [(''LANG'', ''de_DE''), (''MODE'', ''fast'')]"
    by (simp add: scenarioEnv_def itemEnv_def zeroItem_def)
  have b: "distinct (map fst (scenarioEnv itemEnv))" by (simp add: se)
  have c: "\<forall>key \<in> fst ` set (scenarioEnv itemEnv). CHR ''='' \<notin> set key" by (simp add: se)
  from RunBash_environment [OF a b c, of ?h 0] obtain l where
    l1: "snd (RunBash ?h 0 itemEnv) = Some l"
    and l2: "lenv l = environ ?h @ map (\<lambda>(key, val). key @ ''='' @ val) (scenarioEnv itemEnv)"
    and l3: "\<forall>k. lookupEnv (lenv l) k =
                 (case map_of (scenarioEnv itemEnv) k of Some v \<Rightarrow> Some v | None \<Rightarrow> lookupEnv (environ ?h) k)"
    by blast
  from l2 have l2': "lenv l = [''PATH=/bin'', ''LANG=C'', ''LANG=de_DE'', ''MODE=fast'']"
    by (simp add: se exampleHost_def)
  have env: "environ ?h = [''PATH=/bin'', ''LANG=C'']" by (simp add: exampleHost_def)
  have k1: "lookupEnv (lenv l) ''LANG'' = Some ''de_DE''" using l3 by (simp add: se)
  have k2: "lookupEnv (lenv l) ''PATH'' = Some ''/bin''"
    using l3 by (simp add: se env envKey_def envValue_def)
  have k3: "lookupEnv (lenv l) ''MODE'' = Some ''fast''" using l3 by (simp add: se)
  have c1: "list_all (\<lambda>(key, val). CHR ''='' \<notin> set key) (scenarioEnv itemEnv)" by (simp add: se)
  from a b c1 l1 l2' k1 k2 k3 show ?thesis by blast
qed

section \<open>Selection of the scenarios to execute\<close>

text \<open>
  Claim C8, amended.  After resolution of a decoded suite, whose unexported flags are
  unset, \<open>getScenarioIds\<close> lists, in ascending order and once each, exactly the indices of
  the scenarios that are not skipped and are displayable or have no name.  When the suite
  has a displayable scenario that is not skipped, these are the indices \<open>main\<close> calls
  \<open>exec\<close> on, in this order; when it has none, \<open>main\<close> calls \<open>exec\<close> on no scenario, ends
  without a panic and starts no subprocess.  Whenever \<open>main\<close> ends without a panic, the
  calls of \<open>RunBash\<close> it has made are, for these indices in this order, those of each
  scenario's execution (its before hooks, the scenario, its after hooks; none for a
  scenario without a script) and no others.  When every hook name of the suite resolves,
  \<open>main\<close> does end without a panic.
\<close>

theorem runner_selection:
  assumes "unmarshal h config = Some t" and "\<forall>s \<in> set (Cases t). \<not> canShow s \<and> \<not> canRun s"
  shows "\<exists>c0. getConf h config = Inr c0
           \<and> getScenarioIds c0 = filter (\<lambda>i. eligible (Cases t ! i)) [0..<length (Cases t)]
           \<and> runnerIds (printHeader h c0) =
               (if filter (\<lambda>s. \<not> Skip s \<and> displayable s) (Cases t) = [] then []
                else filter (\<lambda>i. eligible (Cases t ! i)) [0..<length (Cases t)])
           \<and> sorted_wrt (<) (runnerIds (printHeader h c0))
           \<and> (\<forall>c out. main h config = Inr (c, out) \<longrightarrow>
                 trace c = trace t @ concat (map (execEvents h c0) (runnerIds (printHeader h c0))))
           \<and> (hooksResolve (Cases t) \<longrightarrow> (\<exists>c out. main h config = Inr (c, out)))
           \<and> (filter (\<lambda>s. \<not> Skip s \<and> displayable s) (Cases t) = [] \<longrightarrow>
                 (\<exists>c out. main h config = Inr (c, out) \<and> trace c = trace t))"
proof -
  let ?c = "t\<lparr>Cases := getConfLoop (getwd h) None (startDir h) (Cases t)\<rparr>"
  let ?p = "printHeader h ?c"
  let ?ids = "filter (\<lambda>i. eligible (Cases t ! i)) [0..<length (Cases t)]"
  have g: "getConf h config = Inr ?c" by (rule getConf_Inr [OF assms(1)])
  have ids: "getScenarioIds ?c = ?ids"
    by (simp add: getScenarioIds_def getScenarioIds_resolved [OF assms(2)])
  have ids': "getScenarioIds ?p = ?ids"
    using ids by (simp add: getScenarioIds_def printHeader_def)
  have cnt: "getScenarioCount ?p
               = int (length (filter (\<lambda>s. \<not> Skip s \<and> displayable s) (Cases t)))"
    by (simp add: getScenarioCount_scored printHeader_def getConfLoop_scored [OF assms(2)])
  have r: "runnerIds ?p =
               (if filter (\<lambda>s. \<not> Skip s \<and> displayable s) (Cases t) = [] then [] else ?ids)"
    by (simp add: runnerIds_def cnt ids')
  have "sorted_wrt (<) ?ids" by (rule sorted_wrt_filter) (rule sorted_wrt_upt)
  then have s: "sorted_wrt (<) (runnerIds ?p)" by (simp add: r)
  have pc: "Cases ?p = Cases ?c" "trace ?p = trace t" by (simp_all add: printHeader_def)
  have ee: "execEvents h ?p = execEvents h ?c"
    by (rule ext)
       (simp add: execEvents_def execCalls_def hookIds_def getIdByName_def printHeader_def)
  have m: "main h config =
             (case runner h ?p of Inl e \<Rightarrow> Inl e
              | Inr c1 \<Rightarrow> Inr (signOff h c1, printSummary (signOff h c1)))"
    by (simp add: main_def g Let_def split: sum.splits)
  have tr: "\<forall>c out. main h config = Inr (c, out) \<longrightarrow>
                 trace c = trace t @ concat (map (execEvents h ?c) (runnerIds ?p))"
  proof (intro allI impI)
    fix c :: suitConfig and out
    assume "main h config = Inr (c, out)"
    with m obtain c1 where r1: "runner h ?p = Inr c1" and c: "c = signOff h c1"
      by (auto split: sum.splits)
    from r1 have "runScenarios h (runnerIds ?p) ?p = Inr c1" by (simp add: runner_def)
    from runScenarios_trace [OF this]
    have "trace c1 = trace ?p @ concat (map (execEvents h ?p) (runnerIds ?p))" by simp
    then show "trace c = trace t @ concat (map (execEvents h ?c) (runnerIds ?p))"
      by (simp add: c signOff_trace pc ee)
  qed
  have tot: "hooksResolve (Cases t) \<longrightarrow> (\<exists>c out. main h config = Inr (c, out))"
  proof
    assume "hooksResolve (Cases t)"
    then have hr: "hooksResolve (Cases ?p)" by (simp add: pc getConfLoop_hooksResolve)
    from runScenarios_total [OF runnerIds_range hr, of h]
    obtain c1 where "runner h ?p = Inr c1" unfolding runner_def by blast
    with m show "\<exists>c out. main h config = Inr (c, out)" by simp
  qed
  have none: "filter (\<lambda>s. \<not> Skip s \<and> displayable s) (Cases t) = [] \<longrightarrow>
                 (\<exists>c out. main h config = Inr (c, out) \<and> trace c = trace t)"
  proof
    assume e: "filter (\<lambda>s. \<not> Skip s \<and> displayable s) (Cases t) = []"
    with r have "runnerIds ?p = []" by simp
    then have "runner h ?p = Inr ?p" by (simp add: runner_def)
    with m have "main h config = Inr (signOff h ?p, printSummary (signOff h ?p))" by simp
    moreover have "trace (signOff h ?p) = trace t" by (simp add: signOff_trace pc)
    ultimately show "\<exists>c out. main h config = Inr (c, out) \<and> trace c = trace t" by blast
  qed
  from g ids r s tr tot none show ?thesis by blast
qed

theorem runner_selection_witness:
  "unmarshal (exampleHost [] suiteMixed) [] = Some (zeroSuite\<lparr>suitName := ''example'', Cases := suiteMixed\<rparr>)
   \<and> list_all (\<lambda>s. \<not> canShow s \<and> \<not> canRun s) suiteMixed
   \<and> hooksResolve suiteMixed
   \<and> (\<exists>c0. getConf (exampleHost [] suiteMixed) [] = Inr c0 \<and> getScenarioIds c0 = [1, 3]
          \<and> runnerIds (printHeader (exampleHost [] suiteMixed) c0) = [1, 3])
   \<and> (\<exists>c out. main (exampleHost [] suiteMixed) [] = Inr (c, out)
          \<and> trace c = [Invoke 1 (Some \<lparr>lscript = ''exit 0'', ldir = [], lenv = [''PATH=/bin'', ''LANG=C'']\<rparr>),
                        Invoke 0 (Some \<lparr>lscript = ''mkdir d'', ldir = [], lenv = [''PATH=/bin'', ''LANG=C'']\<rparr>),
                        Invoke 3 (Some \<lparr>lscript = ''exit 0'', ldir = [], lenv = [''PATH=/bin'', ''LANG=C'']\<rparr>)])"
proof -
  let ?h = "exampleHost [] suiteMixed"
  let ?t = "zeroSuite\<lparr>suitName := ''example'', Cases := suiteMixed\<rparr>"
  have a: "unmarshal ?h [] = Some ?t" by (simp add: exampleHost_def)
  have b0: "\<forall>s \<in> set suiteMixed. \<not> canShow s \<and> \<not> canRun s" by (simp add: suiteMixed_def zeroItem_def)
  then have b: "\<forall>s \<in> set (Cases ?t). \<not> canShow s \<and> \<not> canRun s" by simp
  from b0 have b1: "list_all (\<lambda>s. \<not> canShow s \<and> \<not> canRun s) suiteMixed" by (simp add: list_all_iff)
  have hr: "hooksResolve suiteMixed" by (simp add: hooksResolve_def suiteMixed_def zeroItem_def)
  then have hr': "hooksResolve (Cases ?t)" by simp
  have l: "[0..<length (Cases ?t)] = [0, 1, 2, 3]" by (simp add: suiteMixed_def upt_rec)
  have e: "filter (\<lambda>i. eligible (Cases ?t ! i)) [0..<length (Cases ?t)] = [1, 3]"
    unfolding l by (simp add: suiteMixed_def zeroItem_def eligible_def displayable_def)
  have d: "filter (\<lambda>s. \<not> Skip s \<and> displayable s) (Cases ?t) \<noteq> []"
    by (simp add: suiteMixed_def zeroItem_def displayable_def)
  from runner_selection [OF a b] obtain c0 where g: "getConf ?h [] = Inr c0"
    and i1': "getScenarioIds c0 = filter (\<lambda>i. eligible (Cases ?t ! i)) [0..<length (Cases ?t)]"
    and i2': "runnerIds (printHeader ?h c0) =
               (if filter (\<lambda>s. \<not> Skip s \<and> displayable s) (Cases ?t) = [] then []
                else filter (\<lambda>i. eligible (Cases ?t ! i)) [0..<length (Cases ?t)])"
    and "sorted_wrt (<) (runnerIds (printHeader ?h c0))"
    and tr: "\<forall>c out. main ?h [] = Inr (c, out) \<longrightarrow>
               trace c = trace ?t @ concat (map (execEvents ?h c0) (runnerIds (printHeader ?h c0)))"
    and tot: "hooksResolve (Cases ?t) \<longrightarrow> (\<exists>c out. main ?h [] = Inr (c, out))"
    and "filter (\<lambda>s. \<not> Skip s \<and> displayable s) (Cases ?t) = [] \<longrightarrow>
                 (\<exists>c out. main ?h [] = Inr (c, out) \<and> trace c = trace ?t)"
    by (elim exE conjE)
  from i1' have i1: "getScenarioIds c0 = [1, 3]" unfolding e .
  from i2' d have i2: "runnerIds (printHeader ?h c0) = [1, 3]" unfolding e by (simp only: if_False)
  from tot hr' obtain c out where m: "main ?h [] = Inr (c, out)" by blast
  from g have c0: "Cases c0 = getConfLoop ''/home/check'' None ''/home/check'' suiteMixed"
    by (auto simp: getConf_def exampleHost_def zeroSuite_def)
  have ev: "concat (map (execEvents ?h c0) [1, 3])
      = [Invoke 1 (Some \<lparr>lscript = ''exit 0'', ldir = [], lenv = [''PATH=/bin'', ''LANG=C'']\<rparr>),
         Invoke 0 (Some \<lparr>lscript = ''mkdir d'', ldir = [], lenv = [''PATH=/bin'', ''LANG=C'']\<rparr>),
         Invoke 3 (Some \<lparr>lscript = ''exit 0'', ldir = [], lenv = [''PATH=/bin'', ''LANG=C'']\<rparr>)]"
    by (simp add: execEvents_def execCalls_def hookIds_def getIdByName_def invokeOf_def launchOf_def
        envEntries_def c0 suiteMixed_def zeroItem_def exampleHost_def Let_def CanShow_def)
  from tr m have "trace c = trace ?t @ concat (map (execEvents ?h c0) (runnerIds (printHeader ?h c0)))"
    by blast
  then have t: "trace c = [Invoke 1 (Some \<lparr>lscript = ''exit 0'', ldir = [], lenv = [''PATH=/bin'', ''LANG=C'']\<rparr>),
         Invoke 0 (Some \<lparr>lscript = ''mkdir d'', ldir = [], lenv = [''PATH=/bin'', ''LANG=C'']\<rparr>),
         Invoke 3 (Some \<lparr>lscript = ''exit 0'', ldir = [], lenv = [''PATH=/bin'', ''LANG=C'']\<rparr>)]"
    unfolding i2 ev by (simp add: zeroSuite_def)
  from a b1 hr g i1 i2 m t show ?thesis by blast
qed

text \<open>
  Claim C8 as it stands fails on the code: in a suite whose only scenario has a script but
  neither a name nor a label, the scenario is not skipped and has no name, yet \<open>main\<close>
  calls \<open>exec\<close> on nothing and no subprocess is started, because \<open>main\<close> enters its loop
  only when \<open>getScenarioCount\<close> is positive.
\<close>

theorem anonymous_only_counterexample:
  "\<not> Skip (suiteAnonymous ! 0) \<and> (displayable (suiteAnonymous ! 0) \<or> Name (suiteAnonymous ! 0) = '''')
   \<and> executedIds (exampleHost [] suiteAnonymous) [] = []
   \<and> mainTrace (exampleHost [] suiteAnonymous) [] = Some []"
  by (simp add: run_defs suiteAnonymous_def executedIds_def mainTrace_def)

section \<open>The summary\<close>

text \<open>
  Claim C1.  When \<open>main\<close> has run a decoded suite to its end, the summary it computes is
  taken over the scenarios that are not skipped and are displayable: the denominator is
  the sum of their weights, the numerator the sum of the weights of the successful ones,
  the failed count the number of those that are not successful, the total their number,
  the successful count the total minus the failed count, and the score the quotient of
  100 times the numerator by the denominator, the value of 100 * sum / max whenever the
  denominator is not zero.  The sums are those of Go's 64-bit \<open>int\<close>, and are the sums of
  the integers whenever these fit in 64 bits.
\<close>

theorem signOff_summary:
  fixes c :: suitConfig
  assumes "unmarshal h config = Some t" and "\<forall>s \<in> set (Cases t). \<not> canShow s \<and> \<not> canRun s"
    and "main h config = Inr (c, out)"
  defines "D \<equiv> filter (\<lambda>s. \<not> Skip s \<and> displayable s) (Cases c)"
  shows "max_acc (signOffTally c) = weightSum D
       \<and> sum_acc (signOffTally c) = weightSum (filter IsSuccessful D)
       \<and> failed c = int (length (filter (\<lambda>s. \<not> IsSuccessful s) D))
       \<and> all c = int (length D)
       \<and> successfull c = all c - failed c
       \<and> score c = float64_div (100 * real_of_int (sint (weightSum (filter IsSuccessful D))))
                                 (real_of_int (sint (weightSum D)))
       \<and> (sint (weightSum D) \<noteq> 0 \<longrightarrow>
            score c = Num (100 * real_of_int (sint (weightSum (filter IsSuccessful D)))
                            / real_of_int (sint (weightSum D))))
       \<and> (- (2 ^ 63) \<le> exactWeightSum D \<and> exactWeightSum D < 2 ^ 63 \<longrightarrow>
            sint (weightSum D) = exactWeightSum D)
       \<and> (- (2 ^ 63) \<le> exactWeightSum (filter IsSuccessful D)
            \<and> exactWeightSum (filter IsSuccessful D) < 2 ^ 63 \<longrightarrow>
            sint (weightSum (filter IsSuccessful D)) = exactWeightSum (filter IsSuccessful D))"
proof -
  from main_Inr [OF assms(3)] obtain c0 c1 where g: "getConf h config = Inr c0"
    and r: "runner h (printHeader h c0) = Inr c1" and c: "c = signOff h c1" by blast
  from g have "c0 = t\<lparr>Cases := getConfLoop (getwd h) None (startDir h) (Cases t)\<rparr>"
    unfolding getConf_Inr [OF assms(1)] by simp
  then have c0: "Cases c0 = getConfLoop (getwd h) None (startDir h) (Cases t)" by simp
  from r have "map staticPart (Cases c1) = map staticPart (Cases (printHeader h c0))"
    unfolding runner_def by (rule runScenarios_static [THEN conjunct1])
  then have st: "map staticPart (Cases c1) = map staticPart (Cases c0)" by (simp add: printHeader_def)
  have "\<forall>s \<in> set (Cases c0). CanShow s = displayable s"
    unfolding c0 by (rule getConfLoop_displayable [OF assms(2)])
  from static_displayable [OF st this] have "\<forall>s \<in> set (Cases c). CanShow s = displayable s"
    by (simp add: c signOff_Cases)
  then have D: "scored (Cases c) = D"
    unfolding scored_def D_def by (intro filter_cong) auto
  have t: "signOffTally c = signOffTally c1" by (rule signOffTally_cong) (simp add: c signOff_Cases)
  have f: "all c = all_acc (signOffTally c)" "failed c = failed_acc (signOffTally c)"
    "successfull c = all c - failed c"
    "score c = float64_div (100 * real_of_int (sint (sum_acc (signOffTally c))))
                            (real_of_int (sint (max_acc (signOffTally c))))"
    unfolding t by (simp_all add: c signOff_fields)
  note tf = signOffTally_fields [of c, unfolded D]
  have p1: "max_acc (signOffTally c) = weightSum D" by (rule tf(2))
  have p2: "sum_acc (signOffTally c) = weightSum (filter IsSuccessful D)" by (rule tf(1))
  have p3: "failed c = int (length (filter (\<lambda>s. \<not> IsSuccessful s) D))" by (simp add: f(2) tf(3))
  have p4: "all c = int (length D)" by (simp add: f(1) tf(4))
  have p6: "score c = float64_div (100 * real_of_int (sint (weightSum (filter IsSuccessful D))))
                                 (real_of_int (sint (weightSum D)))"
    by (simp add: f(4) p1 p2)
  have p7: "sint (weightSum D) \<noteq> 0 \<longrightarrow>
            score c = Num (100 * real_of_int (sint (weightSum (filter IsSuccessful D)))
                            / real_of_int (sint (weightSum D)))"
  proof
    assume "sint (weightSum D) \<noteq> 0"
    then have "real_of_int (sint (weightSum D)) \<noteq> 0" by (simp only: of_int_eq_0_iff not_False_eq_True)
    then show "score c = Num (100 * real_of_int (sint (weightSum (filter IsSuccessful D)))
                            / real_of_int (sint (weightSum D)))"
      unfolding p6 float64_div_def by (simp only: if_False)
  qed
  have p8: "- (2 ^ 63) \<le> exactWeightSum D \<and> exactWeightSum D < 2 ^ 63 \<longrightarrow>
            sint (weightSum D) = exactWeightSum D"
    using weightSum_exact [of D] by blast
  have p9: "- (2 ^ 63) \<le> exactWeightSum (filter IsSuccessful D)
            \<and> exactWeightSum (filter IsSuccessful D) < 2 ^ 63 \<longrightarrow>
            sint (weightSum (filter IsSuccessful D)) = exactWeightSum (filter IsSuccessful D)"
    using weightSum_exact [of "filter IsSuccessful D"] by blast
  from p1 p2 p3 p4 f(3) p6 p7 p8 p9 show ?thesis by blast
qed

theorem signOff_summary_witness:
  "unmarshal (exampleHost [] suiteB) [] = Some (zeroSuite\<lparr>suitName := ''example'', Cases := suiteB\<rparr>)
   \<and> list_all (\<lambda>s. \<not> canShow s \<and> \<not> canRun s) suiteB
   \<and> (\<exists>c out. main (exampleHost [] suiteB) [] = Inr (c, out)
         \<and> all c = 2 \<and> failed c = 1 \<and> successfull c = 1 \<and> score c = Num 25)"
proof -
  let ?h = "exampleHost [] suiteB"
  let ?t = "zeroSuite\<lparr>suitName := ''example'', Cases := suiteB\<rparr>"
  have a: "unmarshal ?h [] = Some ?t" by (simp add: exampleHost_def)
  have b0: "\<forall>s \<in> set suiteB. \<not> canShow s \<and> \<not> canRun s" by (simp add: suiteB_def zeroItem_def)
  then have b: "\<forall>s \<in> set (Cases ?t). \<not> canShow s \<and> \<not> canRun s" by simp
  have "\<exists>c out. main ?h [] = Inr (c, out) \<and> map (\<lambda>s. (Skip s, Case s, Weight s, Status s)) (Cases c)
          = [(False, ''first'', 1, ''success''), (False, ''second'', 3, ''failed'')]"
    by (simp add: run_defs suiteB_def)
  then obtain c out where m: "main ?h [] = Inr (c, out)"
    and cs: "map (\<lambda>s. (Skip s, Case s, Weight s, Status s)) (Cases c)
          = [(False, ''first'', 1, ''success''), (False, ''second'', 3, ''failed'')]"
    by (elim exE conjE)
  from cs obtain s1 s2 where c12: "Cases c = [s1, s2]"
    and s1: "\<not> Skip s1" "Case s1 = ''first''" "Weight s1 = 1" "Status s1 = ''success''"
    and s2: "\<not> Skip s2" "Case s2 = ''second''" "Weight s2 = 3" "Status s2 = ''failed''"
    by auto
  have D: "filter (\<lambda>s. \<not> Skip s \<and> displayable s) (Cases c) = [s1, s2]"
    by (simp add: c12 s1 s2 displayable_def)
  note th = signOff_summary [OF a b m, unfolded D]
  have q1: "all c = 2" using th by simp
  have q2: "failed c = 1" using th by (simp add: IsSuccessful_def s1 s2)
  have q3: "successfull c = 1" using th q1 q2 by simp
  have q4: "score c = Num 25" using th
    by (simp add: IsSuccessful_def s1 s2 weightSum_def float64_div_def)
  from b0 have b1: "list_all (\<lambda>s. \<not> canShow s \<and> \<not> canRun s) suiteB" by (simp add: list_all_iff)
  from a b1 m q1 q2 q3 q4 show ?thesis by blast
qed

section \<open>Scenarios that were never run\<close>

text \<open>
  Claim C10.  A displayable scenario that is not skipped and whose status is still the
  empty string, as it is when its script body is empty, counts as failed: compared with
  the same suite without it, the total and the failed count are one more, the
  denominator is more by its weight, the numerator is the same, and so the successful
  count is the same.
\<close>

theorem unrun_counts_as_failed:
  assumes "CanShow x" and "\<not> Skip x" and "Status x = ''''"
  shows "signOffTally (c\<lparr>Cases := pre @ x # post\<rparr>) =
           \<lparr>sum_acc = sum_acc (signOffTally (c\<lparr>Cases := pre @ post\<rparr>)),
            max_acc = max_acc (signOffTally (c\<lparr>Cases := pre @ post\<rparr>)) + Weight x,
            failed_acc = failed_acc (signOffTally (c\<lparr>Cases := pre @ post\<rparr>)) + 1,
            all_acc = all_acc (signOffTally (c\<lparr>Cases := pre @ post\<rparr>)) + 1\<rparr>
       \<and> failed (signOff h (c\<lparr>Cases := pre @ x # post\<rparr>))
           = failed (signOff h (c\<lparr>Cases := pre @ post\<rparr>)) + 1
       \<and> all (signOff h (c\<lparr>Cases := pre @ x # post\<rparr>))
           = all (signOff h (c\<lparr>Cases := pre @ post\<rparr>)) + 1
       \<and> successfull (signOff h (c\<lparr>Cases := pre @ x # post\<rparr>))
           = successfull (signOff h (c\<lparr>Cases := pre @ post\<rparr>))"
proof -
  from assms(3) have ns: "\<not> IsSuccessful x" by (simp add: IsSuccessful_def)
  have t: "signOffTally (c\<lparr>Cases := pre @ x # post\<rparr>) =
           \<lparr>sum_acc = sum_acc (signOffTally (c\<lparr>Cases := pre @ post\<rparr>)),
            max_acc = max_acc (signOffTally (c\<lparr>Cases := pre @ post\<rparr>)) + Weight x,
            failed_acc = failed_acc (signOffTally (c\<lparr>Cases := pre @ post\<rparr>)) + 1,
            all_acc = all_acc (signOffTally (c\<lparr>Cases := pre @ post\<rparr>)) + 1\<rparr>"
    using assms(1,2) ns by (simp add: signOffTally_scored scored_def)
  show ?thesis unfolding signOff_fields t by simp
qed

theorem unrun_counts_as_failed_witness:
  "CanShow inertItem \<and> \<not> Skip inertItem \<and> Status inertItem = ''''
   \<and> signOffTally (zeroSuite\<lparr>Cases := [doneItem, inertItem]\<rparr>)
        = \<lparr>sum_acc = 1, max_acc = 3, failed_acc = 1, all_acc = 2\<rparr>
   \<and> mainReport (exampleHost [] suiteInert) []
        = Some (1, 2, 1, Num 50, Some (Summary True 1 2 1 (Num 50) ''some ms''))"
proof -
  have a: "CanShow inertItem" by (simp add: inertItem_def zeroItem_def CanShow_def)
  have b: "\<not> Skip inertItem" by (simp add: inertItem_def zeroItem_def)
  have c: "Status inertItem = ''''" by (simp add: inertItem_def zeroItem_def)
  have d: "signOffTally (zeroSuite\<lparr>Cases := [doneItem] @ []\<rparr>)
             = \<lparr>sum_acc = 1, max_acc = 1, failed_acc = 0, all_acc = 1\<rparr>"
    by (simp add: signOffTally_scored scored_def doneItem_def zeroItem_def CanShow_def IsSuccessful_def)
  have w: "Weight inertItem = 2" by (simp add: inertItem_def)
  from unrun_counts_as_failed [where x = inertItem and c = zeroSuite and pre = "[doneItem]"
         and post = "[]" and h = "exampleHost [] []", OF a b c]
  have e: "signOffTally (zeroSuite\<lparr>Cases := [doneItem, inertItem]\<rparr>)
        = \<lparr>sum_acc = 1, max_acc = 3, failed_acc = 1, all_acc = 2\<rparr>"
    unfolding d w by simp
  have f: "mainReport (exampleHost [] suiteInert) []
        = Some (1, 2, 1, Num 50, Some (Summary True 1 2 1 (Num 50) ''some ms''))"
    by (simp add: run_defs suiteInert_def mainReport_def)
  from a b c e f show ?thesis by blast
qed

section \<open>A zero denominator\<close>

text \<open>
  Claim C3 fails on the code: a suite with no displayable scenario has denominator zero,
  the score field becomes NaN and no summary line is printed; nothing reports the score
  as not applicable.
\<close>

theorem zero_denominator_counterexample:
  "mainReport (exampleHost [] suiteAnonymous) [] = Some (0, 0, 0, NaN, None)"
  by (simp add: run_defs suiteAnonymous_def mainReport_def)

text \<open>
  Claim C3, amended.  When no scenario is displayable and not skipped, the denominator is
  zero, \<open>signOff\<close> sets the score to NaN and \<open>printSummary\<close> prints nothing, so no score is
  reported.  After resolution no displayable scenario has weight zero: the weight zero of
  a displayable scenario has become one.
\<close>

theorem zero_denominator_no_summary:
  "(scored (Cases c) = [] \<longrightarrow>
      max_acc (signOffTally c) = 0 \<and> score (signOff h c) = NaN \<and> printSummary (signOff h c) = None)
   \<and> (getConf h config = Inr c \<longrightarrow> (\<forall>s \<in> set (Cases c). CanShow s \<longrightarrow> Weight s \<noteq> 0))"
proof -
  have p1: "scored (Cases c) = [] \<longrightarrow>
      max_acc (signOffTally c) = 0 \<and> score (signOff h c) = NaN \<and> printSummary (signOff h c) = None"
    by (simp add: printSummary_def signOff_fields signOffTally_fields weightSum_def float64_div_def)
  have p2: "getConf h config = Inr c \<longrightarrow> (\<forall>s \<in> set (Cases c). CanShow s \<longrightarrow> Weight s \<noteq> 0)"
  proof
    assume g: "getConf h config = Inr c"
    then obtain t where "unmarshal h config = Some t" by (auto simp: getConf_def split: option.splits)
    from getConf_Inr [OF this] g
    have "c = t\<lparr>Cases := getConfLoop (getwd h) None (startDir h) (Cases t)\<rparr>" by simp
    then have "Cases c = getConfLoop (getwd h) None (startDir h) (Cases t)" by simp
    then show "\<forall>s \<in> set (Cases c). CanShow s \<longrightarrow> Weight s \<noteq> 0"
      using getConfLoop_weight [of "getwd h" None "startDir h" "Cases t"] by simp
  qed
  from p1 p2 show ?thesis by (rule conjI)
qed

theorem zero_denominator_no_summary_witness:
  "scored [zeroItem\<lparr>Script := ''exit 0'', canRun := True\<rparr>] = []
   \<and> score (signOff (exampleHost [] []) (stateOf [zeroItem\<lparr>Script := ''exit 0'', canRun := True\<rparr>])) = NaN
   \<and> printSummary (signOff (exampleHost [] []) (stateOf [zeroItem\<lparr>Script := ''exit 0'', canRun := True\<rparr>])) = None
   \<and> (\<exists>c. getConf (exampleHost [] suiteZeroWeight) [] = Inr c \<and> map Weight (Cases c) = [1, 0]
          \<and> (\<forall>s \<in> set (Cases c). CanShow s \<longrightarrow> Weight s \<noteq> 0))"
proof -
  let ?c = "stateOf [zeroItem\<lparr>Script := ''exit 0'', canRun := True\<rparr>]"
  have a: "scored [zeroItem\<lparr>Script := ''exit 0'', canRun := True\<rparr>] = []"
    by (simp add: scored_def zeroItem_def CanShow_def)
  then have a': "scored (Cases ?c) = []" by (simp add: stateOf_def)
  note t1 = zero_denominator_no_summary [of ?c "exampleHost [] []" "[]", THEN conjunct1, rule_format, OF a']
  have "\<exists>c. getConf (exampleHost [] suiteZeroWeight) [] = Inr c \<and> map Weight (Cases c) = [1, 0]"
    by (simp add: getConf_def exampleHost_def suiteZeroWeight_def zeroItem_def zeroSuite_def Let_def CanShow_def)
  then obtain c where g: "getConf (exampleHost [] suiteZeroWeight) [] = Inr c"
    and w: "map Weight (Cases c) = [1, 0]" by (elim exE conjE)
  have t2: "\<forall>s \<in> set (Cases c). CanShow s \<longrightarrow> Weight s \<noteq> 0"
    using zero_denominator_no_summary [of c "exampleHost [] suiteZeroWeight" "[]"] g by blast
  from t1 have s1: "score (signOff (exampleHost [] []) ?c) = NaN"
    and s2: "printSummary (signOff (exampleHost [] []) ?c) = None" by simp_all
  show ?thesis using a s1 s2 g w t2 by (intro conjI exI [of _ c])
qed

section \<open>Working directory of the subprocess\<close>

text \<open>
  Claim C2 does not hold on the code.  A scenario that declares the working directory
  \<open>/srv\<close> keeps it through resolution, yet without an override on the command line its
  script is started with the empty \<open>Dir\<close>, which is the directory of the process itself:
  \<open>RunBash\<close> sets \<open>Dir\<close> from the package variable and never reads the scenario's field.
\<close>

theorem scenario_workdir_not_used:
  "map Workdir (resolvedCases (exampleHost [] suiteWorkdir) []) = [''/srv'']
   \<and> mainTrace (exampleHost [] suiteWorkdir) []
       = Some [Invoke 0 (Some \<lparr>lscript = ''pwd'', ldir = '''', lenv = [''PATH=/bin'', ''LANG=C'']\<rparr>)]"
  by (simp add: run_defs suiteWorkdir_def resolvedCases_def mainTrace_def)

end
